theory Spec2Isabelle
  imports
    Main
    "HOL-Library.AList"
    "HOL-Library.Char_ord"
    "HOL-Library.List_Lexorder"
    "HOL-Library.Multiset"
begin

section \<open>AppxManifest.js: data model\<close>

text \<open>
  The manifest is an elementtree document. An element carries the library's object
  identity \<open>_id\<close> (a global counter gives every constructed element its own), its tag,
  its attribute object (an insertion-ordered key/value list), the \<open>localName\<close> property
  that \<open>sortCapabilities\<close> attaches to capability elements (absent until then), and its
  ordered child list. Text and tail are not inspected by the functions modelled here.
  Strings are lists of characters.
\<close>

datatype element =
  Element (eid: nat) (tag: string) (attrib: "(string \<times> string) list")
    (localName: "string option") (children: "element list")

definition set_tag :: "string \<Rightarrow> element \<Rightarrow> element" where
  "set_tag t e = Element (eid e) t (attrib e) (localName e) (children e)"

definition set_attrib :: "(string \<times> string) list \<Rightarrow> element \<Rightarrow> element" where
  "set_attrib a e = Element (eid e) (tag e) a (localName e) (children e)"

definition set_localName :: "string option \<Rightarrow> element \<Rightarrow> element" where
  "set_localName l e = Element (eid e) (tag e) (attrib e) l (children e)"

definition set_children :: "element list \<Rightarrow> element \<Rightarrow> element" where
  "set_children cs e = Element (eid e) (tag e) (attrib e) (localName e) cs"

text \<open>\<open>el.attrib.Key\<close>: the value, or \<open>undefined\<close> (here \<open>None\<close>).\<close>

definition attr :: "string \<Rightarrow> element \<Rightarrow> string option" where
  "attr k e = map_of (attrib e) k"

text \<open>\<open>el.attrib.Key = v\<close>: overwrite in place, or add as the last property.\<close>

definition assign_attr :: "string \<Rightarrow> string \<Rightarrow> element \<Rightarrow> element" where
  "assign_attr k v e = set_attrib (AList.update k v (attrib e)) e"

text \<open>
  Errors raised by the module: a \<open>TypeError\<close> (raised by setters on empty input and by
  the runtime on a property access through \<open>null\<close>), a plain \<open>Error\<close> (the structure
  checks), the string thrown when the manifest is not a Windows 10 manifest, and a
  failure of the external parser.
\<close>

datatype error = TypeError | StructureError | UnsupportedVersion | ParseError

section \<open>Change demultiplexer\<close>

record 'v change =
  target :: string
  parent :: 'v
  after :: 'v
  xmls :: 'v
  versions :: 'v
  deviceTarget :: 'v

definition MANIFEST :: string where
  "MANIFEST = ''package.windows10.appxmanifest''"

definition demuxChangeWithSubsts :: "'v change \<Rightarrow> 'v change" where
  "demuxChangeWithSubsts change =
     \<lparr> target = MANIFEST,
       parent = parent change,
       after = after change,
       xmls = xmls change,
       versions = versions change,
       deviceTarget = deviceTarget change \<rparr>"

text \<open>
  \<open>processChanges\<close>: \<open>some\<close> is \<open>list_ex\<close>; the \<open>forEach\<close> that pushes or concatenates
  onto a fresh array is a left fold. \<open>concat\<close> of a plain object appends that object.
\<close>

definition processChanges :: "'v change list \<Rightarrow> 'v change list" where
  "processChanges changes =
     (let hasManifestChanges =
            list_ex (\<lambda>change. target change = ''package.appxmanifest'') changes
      in if \<not> hasManifestChanges then changes
         else foldl (\<lambda>acc change.
                 if target change \<noteq> ''package.appxmanifest'' then acc @ [change]
                 else acc @ [demuxChangeWithSubsts change]) [] changes)"

section \<open>Application view\<close>

text \<open>
  \<open>getApplication\<close> returns an object closed over the located \<open>Application\<close> node (also
  exposed as \<open>_node\<close>); a setter mutates that node and returns the view. The view is
  modelled by its node: a setter takes the node and returns the updated node, or the
  error it throws.
\<close>

definition setId :: "string option \<Rightarrow> element \<Rightarrow> error + element" where
  "setId ident application =
     (case ident of
        None \<Rightarrow> Inl TypeError
      | Some i \<Rightarrow>
          if i = [] then Inl TypeError
          else let appId = (if length i \<le> 64 then i else take 64 i)
               in Inr (assign_attr ''Id'' appId application))"

definition setStartPage :: "string option \<Rightarrow> element \<Rightarrow> error + element" where
  "setStartPage page application =
     (let page' = (case page of
                     None \<Rightarrow> ''www/index.html''
                   | Some p \<Rightarrow> if p = [] then ''www/index.html'' else p)
      in Inr (assign_attr ''StartPage'' page' application))"

definition getStartPage :: "element \<Rightarrow> string option" where
  "getStartPage application = attr ''StartPage'' application"

section \<open>Identity view: the version setter\<close>

text \<open>\<open>\d\<close> of a JavaScript regular expression: the ten ASCII digits.\<close>

definition isDigit :: "char \<Rightarrow> bool" where
  "isDigit c = (CHR ''0'' \<le> c \<and> c \<le> CHR ''9'')"

text \<open>
  \<open>s.split(c)\<close> for a one-character separator: the segments between occurrences of the
  separator; never an empty array.
\<close>

fun split_on :: "char \<Rightarrow> string \<Rightarrow> string list" where
  "split_on c [] = [[]]"
| "split_on c (x # xs) =
     (if x = c then [] # split_on c xs
      else (case split_on c xs of [] \<Rightarrow> [[x]] | s # ss \<Rightarrow> (x # s) # ss))"

text \<open>
  The number of matches of \<open>version.match(/\.\d/g)\<close>, \<open>0\<close> standing for the \<open>null\<close> that
  \<open>match\<close> returns when nothing matches: the scan resumes after each two-character match.
\<close>

fun matchDotDigit :: "string \<Rightarrow> nat" where
  "matchDotDigit (c # d # cs) =
     (if c = CHR ''.'' \<and> isDigit d then Suc (matchDotDigit cs) else matchDotDigit (d # cs))"
| "matchDotDigit _ = 0"

text \<open>\<open>while (numVersionComponents++ < 4) version += '.0'\<close>.\<close>

function padVersion :: "nat \<Rightarrow> string \<Rightarrow> string" where
  "padVersion n version =
     (if n < 4 then padVersion (Suc n) (version @ ''.0'') else version)"
  by pat_completeness auto
termination
  by (relation "measure (\<lambda>(n, v). 4 - n)") auto

declare padVersion.simps [simp del]

definition setVersion :: "string option \<Rightarrow> element \<Rightarrow> error + element" where
  "setVersion version identity =
     (case version of
        None \<Rightarrow> Inl TypeError
      | Some v \<Rightarrow>
          if v = [] then Inl TypeError
          else let v' = (if matchDotDigit v \<noteq> 0
                         then padVersion (matchDotDigit v + 1) v else v)
               in Inr (assign_attr ''Version'' v' identity))"

definition getVersion :: "element \<Rightarrow> string option" where
  "getVersion identity = attr ''Version'' identity"

text \<open>A version component that begins with a digit.\<close>

definition startsWithDigit :: "string \<Rightarrow> bool" where
  "startsWithDigit s = (case s of [] \<Rightarrow> False | x # _ \<Rightarrow> isDigit x)"

section \<open>Manifest instances and the manifest cache\<close>

text \<open>
  An \<open>AppxManifest\<close> instance. Instances are objects: the program holds references to
  them, and two references are equal exactly when they denote the same object. A
  reference is modelled by the allocation number of the object.
\<close>

record manifest =
  path :: string
  doc :: element
  hasPhoneIdentity :: bool

text \<open>
  The module state: \<open>manifestCache\<close> (file name to instance reference), the instances
  allocated so far, the number of the next allocation, and the number of calls of
  \<open>xml.parseElementtreeSync\<close> made so far (what the unit tests observe with a spy).
  \<open>manifestCache\<close> is a plain object literal: the map holds its own properties, and a
  read of a name it does not own falls through to \<open>Object.prototype\<close>.
\<close>

record state =
  manifestCache :: "string \<rightharpoonup> nat"
  instances :: "nat \<rightharpoonup> manifest"
  nextRef :: nat
  parseCalls :: nat

definition initial :: state where
  "initial = \<lparr> manifestCache = Map.empty, instances = Map.empty, nextRef = 0, parseCalls = 0 \<rparr>"

text \<open>
  \<open>xml.parseElementtreeSync\<close> belongs to cordova-common. It is a parameter \<open>fs\<close> here: the
  root element of the document parsed from the file of that name, or \<open>None\<close> when reading
  or parsing throws.

  The constructor parses the file, checks the root tag and allocates the instance.
\<close>

definition AppxManifest ::
  "(string \<Rightarrow> element option) \<Rightarrow> string \<Rightarrow> state \<Rightarrow> (error + nat) \<times> state" where
  "AppxManifest fs p s =
     (let s1 = s\<lparr>parseCalls := parseCalls s + 1\<rparr>
      in case fs p of
           None \<Rightarrow> (Inl ParseError, s1)
         | Some root \<Rightarrow>
             if tag root \<noteq> ''Package'' then (Inl StructureError, s1)
             else let r = nextRef s1
                  in (Inr r,
                      s1\<lparr>instances := (instances s1)
                            (r \<mapsto> \<lparr>path = p, doc = root, hasPhoneIdentity = True\<rparr>),
                          nextRef := Suc r\<rparr>))"

text \<open>
  The names that every plain object inherits from \<open>Object.prototype\<close>. Each denotes an
  object of the runtime (a function, or the prototype itself for \<open>__proto__\<close>), which is
  truthy and is no \<open>AppxManifest\<close> instance. What a read of \<open>manifestCache[fileName]\<close>
  yields is an instance reference or one of these objects, or \<open>undefined\<close> (\<open>None\<close>).
\<close>

definition objectPrototype :: "string list" where
  "objectPrototype =
     [''constructor'', ''__defineGetter__'', ''__defineSetter__'', ''hasOwnProperty'',
      ''__lookupGetter__'', ''__lookupSetter__'', ''isPrototypeOf'',
      ''propertyIsEnumerable'', ''toString'', ''valueOf'', ''__proto__'',
      ''toLocaleString'']"

datatype obj = Instance nat | Inherited string

definition cacheLookup :: "state \<Rightarrow> string \<Rightarrow> obj option" where
  "cacheLookup s fileName =
     (case manifestCache s fileName of
        Some r \<Rightarrow> Some (Instance r)
      | None \<Rightarrow> if fileName \<in> set objectPrototype then Some (Inherited fileName) else None)"

text \<open>
  \<open>get\<close>. The assignment \<open>manifestCache[fileName] = result\<close> is reached only when the read
  before it was falsy, hence never for an inherited name: it always creates or overwrites
  an own property.
\<close>

definition get ::
  "(string \<Rightarrow> element option) \<Rightarrow> string \<Rightarrow> bool \<Rightarrow> state \<Rightarrow> (error + obj) \<times> state" where
  "get fs fileName ignoreCache s =
     (case (if ignoreCache then None else cacheLookup s fileName) of
        Some cached \<Rightarrow> (Inr cached, s)
      | None \<Rightarrow>
          let s1 = s\<lparr>parseCalls := parseCalls s + 1\<rparr>
          in case fs fileName of
               None \<Rightarrow> (Inl ParseError, s1)
             | Some root \<Rightarrow>
                 let rootAttributes = map fst (attrib root)
                 in if ''xmlns:uap'' \<notin> set rootAttributes then (Inl UnsupportedVersion, s1)
                    else case AppxManifest fs fileName s1 of
                           (Inl e, s2) \<Rightarrow> (Inl e, s2)
                         | (Inr result, s2) \<Rightarrow>
                             (Inr (Instance result),
                              if \<not> ignoreCache
                              then s2\<lparr>manifestCache := (manifestCache s2)(fileName \<mapsto> result)\<rparr>
                              else s2))"

text \<open>
  The argument of \<open>purgeCache\<close>: nothing, one key, or an array of keys. An empty string
  is falsy and purges everything, as no argument does.
\<close>

datatype cacheKeys = NoKeys | OneKey string | Keys "string list"

definition purgeCache :: "cacheKeys \<Rightarrow> state \<Rightarrow> state" where
  "purgeCache cacheKeys s =
     (case cacheKeys of
        NoKeys \<Rightarrow> s\<lparr>manifestCache := Map.empty\<rparr>
      | OneKey k \<Rightarrow>
          if k = [] then s\<lparr>manifestCache := Map.empty\<rparr>
          else s\<lparr>manifestCache := (manifestCache s)(k := None)\<rparr>
      | Keys ks \<Rightarrow>
          s\<lparr>manifestCache := foldl (\<lambda>m key. m(key := None)) (manifestCache s) ks\<rparr>)"

text \<open>
  A history of calls on the module, each \<open>get\<close> with the file system of its moment, and
  the results in call order (\<open>None\<close> for \<open>purgeCache\<close>, which returns nothing).
\<close>

datatype call =
  Get "string \<Rightarrow> element option" string bool
| PurgeCache cacheKeys

definition step :: "call \<Rightarrow> state \<Rightarrow> (error + obj) option \<times> state" where
  "step c s =
     (case c of
        Get fs fileName ignoreCache \<Rightarrow>
          (case get fs fileName ignoreCache s of (r, s') \<Rightarrow> (Some r, s'))
      | PurgeCache ks \<Rightarrow> (None, purgeCache ks s))"

fun run :: "call list \<Rightarrow> state \<Rightarrow> (error + obj) option list \<times> state" where
  "run [] s = ([], s)"
| "run (c # cs) s =
     (case step c s of (r, s1) \<Rightarrow> (case run cs s1 of (rs, s2) \<Rightarrow> (r # rs, s2)))"

text \<open>
  Two invariants of the cache used below: every cached reference has been allocated;
  and a reference that is allocated and not cached (it stays so, and no later call
  returns it).
\<close>

definition cacheBelow :: "state \<Rightarrow> bool" where
  "cacheBelow s = (\<forall>r \<in> ran (manifestCache s). r < nextRef s)"

definition uncached :: "nat \<Rightarrow> state \<Rightarrow> bool" where
  "uncached r s = (r < nextRef s \<and> r \<notin> ran (manifestCache s))"

section \<open>The document tree\<close>

text \<open>
  \<open>iter\<close>: an element and its descendants in document order. \<open>e.find('./T')\<close> is the first
  child tagged \<open>T\<close>; \<open>e.find('.//T')\<close> is the first proper descendant tagged \<open>T\<close> in
  document order; both are \<open>null\<close> (here \<open>None\<close>) when there is none. \<open>find\<close> on the
  document object is \<open>find\<close> on its root element.
\<close>

fun iter :: "element \<Rightarrow> element list" where
  "iter (Element i t a l cs) = Element i t a l cs # concat (map iter cs)"

definition findChild :: "string \<Rightarrow> element \<Rightarrow> element option" where
  "findChild t e = List.find (\<lambda>c. tag c = t) (children e)"

definition findDescendant :: "string \<Rightarrow> element \<Rightarrow> element option" where
  "findDescendant t e = List.find (\<lambda>c. tag c = t) (concat (map iter (children e)))"

text \<open>
  The code holds the element that \<open>find\<close> returned by reference and mutates it in place.
  In the tree that is an update at the position of that element: \<open>modifyFirst t f\<close>
  rewrites with \<open>f\<close> the first element tagged \<open>t\<close>, in document order, of a forest.
\<close>

fun modifyFirst :: "string \<Rightarrow> (element \<Rightarrow> element) \<Rightarrow> element list \<Rightarrow> element list option" where
  "modifyFirst t f [] = None"
| "modifyFirst t f (Element i tg a l cs # es) =
     (if tg = t then Some (f (Element i tg a l cs) # es)
      else case modifyFirst t f cs of
             Some cs' \<Rightarrow> Some (Element i tg a l cs' # es)
           | None \<Rightarrow> map_option ((#) (Element i tg a l cs)) (modifyFirst t f es))"

text \<open>
  \<open>parent.remove(el)\<close> replaces the child array by a copy without the children whose
  \<open>_id\<close> is that of \<open>el\<close>; an array obtained earlier from \<open>getchildren()\<close> is left as it was.
  \<open>parent.append(el)\<close> pushes onto the child array.
\<close>

definition remove :: "element \<Rightarrow> element \<Rightarrow> element" where
  "remove el parent' = set_children (filter (\<lambda>e. eid e \<noteq> eid el) (children parent')) parent'"

definition append_child :: "element \<Rightarrow> element \<Rightarrow> element" where
  "append_child el parent' = set_children (children parent' @ [el]) parent'"

section \<open>Capabilities\<close>

definition CAPS_NEEDING_UAPNS :: "string list" where
  "CAPS_NEEDING_UAPNS =
     [''documentsLibrary'', ''picturesLibrary'', ''videosLibrary'',
      ''musicLibrary'', ''enterpriseAuthentication'', ''sharedUserCertificates'',
      ''removableStorage'', ''appointments'', ''contacts'', ''userAccountInformation'',
      ''phoneCall'', ''blockedChatMessages'', ''objects3D'']"

text \<open>\<open>getCapabilities\<close>: the \<open>{type, name}\<close> objects are pairs here.\<close>

definition getCapabilities :: "manifest \<Rightarrow> (string \<times> string option) list" where
  "getCapabilities m =
     (case findChild ''Capabilities'' (doc m) of
        None \<Rightarrow> []
      | Some capabilities \<Rightarrow>
          map (\<lambda>element. (tag element, attr ''Name'' element)) (children capabilities))"

text \<open>
  \<open>ensureUapPrefixedCapabilities\<close>, on the \<open>Capabilities\<close> element. \<open>indexOf\<close> of an
  absent \<open>Name\<close> is \<open>-1\<close>.
\<close>

definition uapPrefixed :: "element \<Rightarrow> element" where
  "uapPrefixed el =
     (if (case attr ''Name'' el of None \<Rightarrow> False | Some n \<Rightarrow> n \<in> set CAPS_NEEDING_UAPNS)
         \<and> take 4 (tag el) \<noteq> ''uap:''
      then set_tag (''uap:'' @ tag el) el else el)"

definition ensureUapPrefixedCapabilities :: "element \<Rightarrow> element" where
  "ensureUapPrefixedCapabilities capabilities =
     set_children (map uapPrefixed (children capabilities)) capabilities"

text \<open>
  \<open>ensureUniqueCapabilities\<close>: the \<open>forEach\<close> runs over the child array as it was at the
  call, carrying the names seen so far and the element with its current children.
\<close>

definition ensureUniqueCapabilities :: "element \<Rightarrow> element" where
  "ensureUniqueCapabilities capabilities =
     snd (foldl (\<lambda>(uniqueCapabilities, caps) el.
                   let name = attr ''Name'' el
                   in if name \<in> set uniqueCapabilities then (uniqueCapabilities, remove el caps)
                      else (uniqueCapabilities @ [name], caps))
                ([], capabilities) (children capabilities))"

text \<open>
  For the proofs: the children that \<open>ensureUniqueCapabilities\<close> removes, and those it
  keeps, given the names seen so far.
\<close>

fun dupsOf :: "string option list \<Rightarrow> element list \<Rightarrow> element list" where
  "dupsOf seen [] = []"
| "dupsOf seen (el # els) =
     (if attr ''Name'' el \<in> set seen then el # dupsOf seen els
      else dupsOf (seen @ [attr ''Name'' el]) els)"

fun keepFirst :: "string option list \<Rightarrow> element list \<Rightarrow> element list" where
  "keepFirst seen [] = []"
| "keepFirst seen (el # els) =
     (if attr ''Name'' el \<in> set seen then keepFirst seen els
      else el # keepFirst (seen @ [attr ''Name'' el]) els)"

section \<open>Sorting the capabilities\<close>

definition extractLocalName :: "string \<Rightarrow> string" where
  "extractLocalName t = last (split_on CHR '':'' t)"

text \<open>
  The comparator of \<open>sortCapabilities\<close>. It never returns \<open>0\<close>. JavaScript compares
  strings by their code units, position by position, a proper prefix being smaller: the
  lexicographic order of character lists over the order of character codes. A comparison
  with an absent \<open>localName\<close> is false in JavaScript.
\<close>

definition compareCapabilities :: "element \<Rightarrow> element \<Rightarrow> int" where
  "compareCapabilities a b =
     (case (localName a, localName b) of
        (Some x, Some y) \<Rightarrow> if x > y then 1 else - 1
      | _ \<Rightarrow> - 1)"

text \<open>
  \<open>Array.prototype.sort\<close> is the engine's. A comparator that never answers \<open>0\<close> is not a
  consistent comparison function in the sense of ECMAScript, which then leaves the order
  to the implementation, so the algorithm of the engine is part of the meaning of the
  call. The model is the sort of V8 (Node.js 11 and later) on an array of fewer than 64
  elements, where the minimal run length of its TimSort is the array length and no
  merging takes place: \<open>CountAndMakeRun\<close> takes the longest initial run, non-descending
  (each \<open>comparefn(next, previous) \<ge> 0\<close>) or strictly descending (each
  \<open>comparefn(next, previous) < 0\<close>; the run is then reversed), and
  \<open>BinaryInsertionSort\<close> inserts the remaining elements one by one at the position found
  by binary search. Longer arrays, which V8 cuts into several runs and merges, are sorted
  here by the same procedure.
\<close>

fun runLength :: "bool \<Rightarrow> ('a \<Rightarrow> 'a \<Rightarrow> int) \<Rightarrow> 'a \<Rightarrow> 'a list \<Rightarrow> nat" where
  "runLength isDescending comparefn previousElement [] = 0"
| "runLength isDescending comparefn previousElement (currentElement # rest) =
     (let order = comparefn currentElement previousElement
      in if (if isDescending then order \<ge> 0 else order < 0) then 0
         else Suc (runLength isDescending comparefn currentElement rest))"

function binarySearch ::
  "('a \<Rightarrow> 'a \<Rightarrow> int) \<Rightarrow> 'a \<Rightarrow> 'a list \<Rightarrow> nat \<Rightarrow> nat \<Rightarrow> nat" where
  "binarySearch comparefn pivot workArray left right =
     (if left < right
      then let mid = left + (right - left) div 2;
               order = comparefn pivot (workArray ! mid)
           in if order < 0 then binarySearch comparefn pivot workArray left mid
              else binarySearch comparefn pivot workArray (mid + 1) right
      else left)"
  by pat_completeness auto
termination
  by (relation "measure (\<lambda>(c, p, a, left, right). right - left)") auto

declare binarySearch.simps [simp del]

text \<open>
  The array is \<open>sorted @ pending\<close>: \<open>sorted\<close> is the part before \<open>start\<close>, \<open>pending\<close> the
  part from \<open>start\<close> on.
\<close>

fun binaryInsertionSort :: "('a \<Rightarrow> 'a \<Rightarrow> int) \<Rightarrow> 'a list \<Rightarrow> 'a list \<Rightarrow> 'a list" where
  "binaryInsertionSort comparefn sorted' [] = sorted'"
| "binaryInsertionSort comparefn sorted' (pivot # pending) =
     (let left = binarySearch comparefn pivot sorted' 0 (length sorted')
      in binaryInsertionSort comparefn (take left sorted' @ pivot # drop left sorted') pending)"

definition arraySort :: "('a \<Rightarrow> 'a \<Rightarrow> int) \<Rightarrow> 'a list \<Rightarrow> 'a list" where
  "arraySort comparefn workArray =
     (case workArray of
        elementHigh # elementLow # rest \<Rightarrow>
          let isDescending = comparefn elementLow elementHigh < 0;
              n = 2 + runLength isDescending comparefn elementLow rest;
              run = (if isDescending then rev (take n workArray) else take n workArray)
          in binaryInsertionSort comparefn run (drop n workArray)
      | _ \<Rightarrow> workArray)"

text \<open>
  A comparator decides by a key on a set of elements when it is negative exactly where
  the key of its first argument is not above the key of its second.
\<close>

definition keyed :: "('a \<Rightarrow> 'a \<Rightarrow> int) \<Rightarrow> ('a \<Rightarrow> 'k::linorder) \<Rightarrow> 'a set \<Rightarrow> bool" where
  "keyed comparefn k S = (\<forall>a \<in> S. \<forall>b \<in> S. (comparefn a b < 0) = (k a \<le> k b))"

text \<open>
  \<open>sortCapabilities\<close>, on the \<open>Capabilities\<close> element: \<open>capabilities\<close> is the child array
  as it was at the call; the first \<open>forEach\<close> removes each child from the element and sets
  its \<open>localName\<close>, the array is sorted in place, the second \<open>forEach\<close> appends.
\<close>

definition sortChildren :: "element \<Rightarrow> element" where
  "sortChildren capabilitiesRoot =
     (let capabilities = children capabilitiesRoot;
          (emptied, capabilities') =
             foldl (\<lambda>(root, arr) elem.
                      (remove elem root,
                       arr @ [set_localName (Some (extractLocalName (tag elem))) elem]))
                   (capabilitiesRoot, []) capabilities;
          capabilities'' = arraySort compareCapabilities capabilities'
      in foldl (\<lambda>root elem. append_child elem root) emptied capabilities'')"

text \<open>
  The three passes in the order in which \<open>writeToString\<close> applies them to the
  \<open>Capabilities\<close> element, and the assignment \<open>elem.localName = extractLocalName(elem.tag)\<close>
  of the sort pass.
\<close>

definition normalizeCapabilities :: "element \<Rightarrow> element" where
  "normalizeCapabilities c =
     sortChildren (ensureUniqueCapabilities (ensureUapPrefixedCapabilities c))"

abbreviation withLocalName :: "element \<Rightarrow> element" where
  "withLocalName elem \<equiv> set_localName (Some (extractLocalName (tag elem))) elem"

section \<open>Serialization\<close>

text \<open>
  Each pass receives what \<open>find('.//Capabilities')\<close> returns and calls \<open>getchildren\<close> on
  it: a \<open>TypeError\<close> when that is \<open>null\<close>, otherwise the pass mutates the element found.
\<close>

definition withCapabilities :: "(element \<Rightarrow> element) \<Rightarrow> element \<Rightarrow> error + element" where
  "withCapabilities pass root =
     (case modifyFirst ''Capabilities'' pass (children root) of
        None \<Rightarrow> Inl TypeError
      | Some cs \<Rightarrow> Inr (set_children cs root))"

definition sortCapabilities :: "element \<Rightarrow> error + element" where
  "sortCapabilities manifest = withCapabilities sortChildren manifest"

text \<open>
  \<open>writeToString\<close> normalises the document of the instance in place and returns what
  the library's serializer makes of it. The serializer is outside the module: the result
  here is the instance with the document that is handed to it.
\<close>

definition writeToString :: "manifest \<Rightarrow> error + manifest" where
  "writeToString m =
     (case withCapabilities ensureUapPrefixedCapabilities (doc m) of
        Inl e \<Rightarrow> Inl e
      | Inr d1 \<Rightarrow>
          (case withCapabilities ensureUniqueCapabilities d1 of
             Inl e \<Rightarrow> Inl e
           | Inr d2 \<Rightarrow>
               (case sortCapabilities d2 of
                  Inl e \<Rightarrow> Inl e
                | Inr d3 \<Rightarrow> Inr (m\<lparr>doc := d3\<rparr>))))"

text \<open>
  \<open>write\<close> (primed here, the name being taken): the arguments of \<open>writeFileSync\<close> are
  evaluated first, so nothing is written when \<open>writeToString\<close> throws. The disk maps a
  path to the document written there.
\<close>

definition write' ::
  "string option \<Rightarrow> manifest \<Rightarrow> (string \<rightharpoonup> element) \<Rightarrow> error + manifest \<times> (string \<rightharpoonup> element)" where
  "write' destPath m disk =
     (let dest = (case destPath of None \<Rightarrow> path m | Some d \<Rightarrow> if d = [] then path m else d)
      in case writeToString m of
           Inl e \<Rightarrow> Inl e
         | Inr m' \<Rightarrow> Inr (m', disk(dest \<mapsto> doc m')))"

section \<open>Dependencies\<close>

text \<open>
  \<open>new et.Element(tag, attrib)\<close> takes the next value of the library's id counter and
  copies the properties of \<open>attrib\<close>. \<open>clear()\<close> empties the attributes and the children.
\<close>

definition newElement :: "string \<Rightarrow> (string \<times> string) list \<Rightarrow> nat \<Rightarrow> element \<times> nat" where
  "newElement t a element_ids = (Element element_ids t a None [], Suc element_ids)"

definition clear :: "element \<Rightarrow> element" where
  "clear e = Element (eid e) (tag e) [] (localName e) []"

text \<open>
  Mutation through the reference that \<open>find('./T')\<close> returned: an update of the first
  child tagged \<open>T\<close>.
\<close>

fun modifyFirstChild :: "string \<Rightarrow> (element \<Rightarrow> element) \<Rightarrow> element list \<Rightarrow> element list" where
  "modifyFirstChild t f [] = []"
| "modifyFirstChild t f (c # cs) =
     (if tag c = t then f c # cs else c # modifyFirstChild t f cs)"

definition modifyChild :: "string \<Rightarrow> (element \<Rightarrow> element) \<Rightarrow> element \<Rightarrow> element" where
  "modifyChild t f e = set_children (modifyFirstChild t f (children e)) e"

text \<open>What a call evaluates to: the instance itself, or \<open>undefined\<close>.\<close>

datatype returned = This | Undefined

text \<open>
  \<open>setDependencies\<close>. The argument is \<open>None\<close> when omitted; each entry is the attribute
  object of one dependency. The result is what the call returns or throws, together
  with the instance and the id counter as the call leaves them.

  \<open>this.doc\<close> is the library's \<open>ElementTree\<close>, which has \<open>getroot\<close>, \<open>find\<close>, \<open>findall\<close>,
  \<open>findtext\<close>, \<open>iter\<close> and \<open>write\<close>, and neither \<open>remove\<close> nor \<open>append\<close> (those are
  methods of \<open>Element\<close>): \<open>this.doc.remove(...)\<close> and \<open>this.doc.append(...)\<close> call
  \<open>undefined\<close> and throw a \<open>TypeError\<close>. In the second case the new \<open>Dependencies\<close>
  element has been constructed by then and is lost.
\<close>

definition setDependencies ::
  "(string \<times> string) list list option \<Rightarrow> manifest \<Rightarrow> nat
     \<Rightarrow> (error + returned) \<times> manifest \<times> nat" where
  "setDependencies dependencies m element_ids =
     (let dependenciesElement = findChild ''Dependencies'' (doc m);
          noDependencies = (case dependencies of None \<Rightarrow> True | Some ds \<Rightarrow> length ds = 0)
      in case (if noDependencies then dependenciesElement else None) of
           Some d \<Rightarrow> (Inl TypeError, m, element_ids)
         | None \<Rightarrow>
             (case dependenciesElement of
                None \<Rightarrow>
                  (case newElement ''Dependencies'' [] element_ids of
                     (d, ids) \<Rightarrow> (Inl TypeError, m, ids))
              | Some d \<Rightarrow>
                  let doc2 = modifyChild ''Dependencies''
                               (\<lambda>d. if length (children d) > 0 then clear d else d) (doc m)
                  in case dependencies of
                       None \<Rightarrow> (Inl TypeError, m\<lparr>doc := doc2\<rparr>, element_ids)
                     | Some ds \<Rightarrow>
                         (case foldl (\<lambda>(d, ids) uapVersionInfo.
                                        case newElement ''TargetDeviceFamily'' uapVersionInfo ids of
                                          (el, ids') \<Rightarrow>
                                            (modifyChild ''Dependencies'' (append_child el) d, ids'))
                                     (doc2, element_ids) ds of
                            (doc3, ids3) \<Rightarrow> (Inr Undefined, m\<lparr>doc := doc3\<rparr>, ids3))))"

section \<open>Properties of the change demultiplexer\<close>

lemma processChanges_fold:
  "foldl (\<lambda>acc change.
       if target change \<noteq> ''package.appxmanifest'' then acc @ [change]
       else acc @ [demuxChangeWithSubsts change]) acc0 (cs :: 'v change list)
   = acc0 @ map (\<lambda>c. if target c = ''package.appxmanifest''
                      then c\<lparr>target := MANIFEST\<rparr> else c) cs"
  by (induction cs arbitrary: acc0) (auto simp: demuxChangeWithSubsts_def)

lemma map_retarget_id:
  "\<not> list_ex (\<lambda>c. target c = ''package.appxmanifest'') cs \<Longrightarrow>
   map (\<lambda>c. if target c = ''package.appxmanifest''
             then c\<lparr>target := MANIFEST\<rparr> else c) cs = (cs :: 'v change list)"
  by (induction cs) auto

text \<open>
  C5. Without an instruction whose target is \<open>package.appxmanifest\<close>, \<open>processChanges\<close>
  returns its input. In every case the result is the input with each generic-target
  instruction replaced, at its own position, by the same instruction retargeted to
  \<open>package.windows10.appxmanifest\<close> (the other five fields kept), and every other
  instruction passed through.
\<close>

theorem processChanges_retargets_in_place:
  "(\<not> list_ex (\<lambda>c. target c = ''package.appxmanifest'') cs \<longrightarrow> processChanges cs = cs)
   \<and> processChanges cs =
       map (\<lambda>c. if target c = ''package.appxmanifest''
                 then c\<lparr>target := MANIFEST\<rparr> else c) (cs :: 'v change list)"
  using map_retarget_id [of cs]
  by (auto simp: processChanges_def processChanges_fold)

theorem processChanges_retargets_in_place_witness:
  "\<not> list_ex (\<lambda>c. target c = ''package.appxmanifest'')
       [\<lparr>target = ''config.xml'', parent = (1::nat), after = 2, xmls = 3,
          versions = 4, deviceTarget = 5\<rparr>]
   \<and> processChanges
       [\<lparr>target = ''config.xml'', parent = (1::nat), after = 2, xmls = 3,
          versions = 4, deviceTarget = 5\<rparr>]
     = [\<lparr>target = ''config.xml'', parent = 1, after = 2, xmls = 3,
          versions = 4, deviceTarget = 5\<rparr>]
   \<and> processChanges
       [\<lparr>target = ''package.appxmanifest'', parent = (1::nat), after = 2, xmls = 3,
          versions = 4, deviceTarget = 5\<rparr>,
        \<lparr>target = ''config.xml'', parent = 6, after = 7, xmls = 8,
          versions = 9, deviceTarget = 10\<rparr>]
     = [\<lparr>target = ''package.windows10.appxmanifest'', parent = 1, after = 2, xmls = 3,
          versions = 4, deviceTarget = 5\<rparr>,
        \<lparr>target = ''config.xml'', parent = 6, after = 7, xmls = 8,
          versions = 9, deviceTarget = 10\<rparr>]"
  using processChanges_retargets_in_place
          [of "[\<lparr>target = ''config.xml'', parent = (1::nat), after = 2, xmls = 3,
                  versions = 4, deviceTarget = 5\<rparr>]"]
        processChanges_retargets_in_place
          [of "[\<lparr>target = ''package.appxmanifest'', parent = (1::nat), after = 2,
                  xmls = 3, versions = 4, deviceTarget = 5\<rparr>,
                \<lparr>target = ''config.xml'', parent = 6, after = 7, xmls = 8,
                  versions = 9, deviceTarget = 10\<rparr>]"]
  by (simp add: MANIFEST_def)

section \<open>Properties of the application view\<close>

lemma attr_assign_attr: "attr k (assign_attr k v e) = Some v"
  by (simp add: attr_def assign_attr_def set_attrib_def update_Some_unfold map_of_eq_None_iff
      AList.update_conv')

text \<open>
  C10. Given \<open>undefined\<close> or the empty string, the start-page setter raises nothing: it
  stores \<open>www/index.html\<close> and returns the view. (The sibling \<open>setId\<close> raises a
  \<open>TypeError\<close> on the same inputs.)
\<close>

theorem setStartPage_default:
  "setStartPage None application = Inr (assign_attr ''StartPage'' ''www/index.html'' application)
   \<and> setStartPage (Some []) application
       = Inr (assign_attr ''StartPage'' ''www/index.html'' application)
   \<and> getStartPage (assign_attr ''StartPage'' ''www/index.html'' application)
       = Some ''www/index.html''
   \<and> setId None application = Inl TypeError
   \<and> setId (Some []) application = Inl TypeError"
  by (simp add: setStartPage_def setId_def getStartPage_def attr_assign_attr)

section \<open>Properties of the version setter\<close>

lemma split_on_not_Nil [simp]: "split_on c s \<noteq> []"
  by (induction s) (auto split: list.splits)

lemma isDigit_not_dot [simp]: "isDigit d \<Longrightarrow> d \<noteq> CHR ''.''"
  by (auto simp: isDigit_def)

lemma matchDotDigit_count:
  "matchDotDigit v = length (filter startsWithDigit (tl (split_on CHR ''.'' v)))"
proof (induction v rule: matchDotDigit.induct)
  case (1 c d cs)
  then show ?case
    by (cases "split_on CHR ''.'' cs") (auto simp: startsWithDigit_def split: list.splits)
qed (simp_all add: startsWithDigit_def)

lemma split_on_append:
  "split_on c (xs @ c # ys) = split_on c xs @ split_on c ys"
  by (induction xs) (auto split: list.splits)

lemma padVersion_eq:
  "n \<le> 4 \<Longrightarrow> padVersion n v = v @ concat (replicate (4 - n) ''.0'')"
proof (induction n v rule: padVersion.induct)
  case (1 n version)
  show ?case
  proof (cases "n < 4")
    case True
    then have "4 - n = Suc (4 - Suc n)" by simp
    with 1 True show ?thesis
      by (subst padVersion.simps) (simp del: replicate.simps add: replicate_Suc)
  next
    case False
    with 1 show ?thesis by (subst padVersion.simps) simp
  qed
qed

lemma concat_replicate_snoc:
  "concat (replicate (Suc m) x) = concat (replicate m x) @ x"
  by (induction m) auto

lemma length_split_on_pad:
  "length (split_on CHR ''.'' (v @ concat (replicate m ''.0''))) = length (split_on CHR ''.'' v) + m"
proof (induction m)
  case 0
  then show ?case by simp
next
  case (Suc m)
  have "v @ concat (replicate (Suc m) ''.0'') = (v @ concat (replicate m ''.0'')) @ CHR ''.'' # ''0''"
    by (simp only: concat_replicate_snoc) simp
  then show ?case using Suc
    by (simp only: split_on_append) simp
qed

lemma matchDotDigit_none:
  "(\<forall>i. Suc i < length w \<longrightarrow> w ! i = CHR ''.'' \<longrightarrow> \<not> isDigit (w ! Suc i))
   \<Longrightarrow> matchDotDigit w = 0"
proof (induction w rule: matchDotDigit.induct)
  case (1 c d cs)
  from "1.prems" have nm: "\<not> (c = CHR ''.'' \<and> isDigit d)" by force
  have "\<forall>i. Suc i < length (d # cs) \<longrightarrow> (d # cs) ! i = CHR ''.'' \<longrightarrow> \<not> isDigit ((d # cs) ! Suc i)"
  proof (intro allI impI)
    fix i assume "Suc i < length (d # cs)" "(d # cs) ! i = CHR ''.''"
    with "1.prems" [rule_format, of "Suc i"] show "\<not> isDigit ((d # cs) ! Suc i)" by simp
  qed
  with "1.IH"(2) nm show ?case by simp
qed simp_all

lemma setVersion_pads:
  assumes "length (split_on CHR ''.'' v) = k" and "2 \<le> k" and "k \<le> 3"
    and "list_all startsWithDigit (tl (split_on CHR ''.'' v))"
  shows "setVersion (Some v) identity
           = Inr (assign_attr ''Version'' (v @ concat (replicate (4 - k) ''.0'')) identity)
         \<and> getVersion (assign_attr ''Version'' (v @ concat (replicate (4 - k) ''.0'')) identity)
           = Some (v @ concat (replicate (4 - k) ''.0''))
         \<and> length (split_on CHR ''.'' (v @ concat (replicate (4 - k) ''.0''))) = 4"
proof -
  have ne: "v \<noteq> []" using assms(1,2) by auto
  have "filter startsWithDigit (tl (split_on CHR ''.'' v)) = tl (split_on CHR ''.'' v)"
    using assms(4) by (simp add: list_all_iff)
  then have m: "matchDotDigit v = k - 1"
    using assms(1) by (simp add: matchDotDigit_count)
  then have "matchDotDigit v \<noteq> 0" and "matchDotDigit v + 1 = k"
    using assms(2) by auto
  moreover have "padVersion k v = v @ concat (replicate (4 - k) ''.0'')"
    using assms(3) by (simp add: padVersion_eq)
  ultimately have "setVersion (Some v) identity
      = Inr (assign_attr ''Version'' (v @ concat (replicate (4 - k) ''.0'')) identity)"
    using ne by (simp add: setVersion_def)
  moreover have "length (split_on CHR ''.'' (v @ concat (replicate (4 - k) ''.0''))) = 4"
    using assms(1-3) by (simp add: length_split_on_pad)
  ultimately show ?thesis
    by (simp add: getVersion_def attr_assign_attr)
qed

text \<open>
  C3 (as amended). For a version string of two or three dot-separated components, each
  component after the first beginning with a digit, the setter stores the string followed
  by as many \<open>.0\<close> as bring it to four components. Every non-empty string in which no dot
  is followed by a digit is stored as it is.
\<close>

theorem setVersion_pads_two_or_three:
  "(length (split_on CHR ''.'' v) = k \<and> 2 \<le> k \<and> k \<le> 3
      \<and> list_all startsWithDigit (tl (split_on CHR ''.'' v)) \<longrightarrow>
      setVersion (Some v) identity
        = Inr (assign_attr ''Version'' (v @ concat (replicate (4 - k) ''.0'')) identity)
      \<and> getVersion (assign_attr ''Version'' (v @ concat (replicate (4 - k) ''.0'')) identity)
        = Some (v @ concat (replicate (4 - k) ''.0''))
      \<and> length (split_on CHR ''.'' (v @ concat (replicate (4 - k) ''.0''))) = 4)
   \<and> (w \<noteq> []
      \<and> (\<forall>i. Suc i < length w \<longrightarrow> w ! i = CHR ''.'' \<longrightarrow> \<not> isDigit (w ! Suc i)) \<longrightarrow>
      setVersion (Some w) identity = Inr (assign_attr ''Version'' w identity)
      \<and> getVersion (assign_attr ''Version'' w identity) = Some w)"
proof -
  have pad: "setVersion (Some v) identity
        = Inr (assign_attr ''Version'' (v @ concat (replicate (4 - k) ''.0'')) identity)
      \<and> getVersion (assign_attr ''Version'' (v @ concat (replicate (4 - k) ''.0'')) identity)
        = Some (v @ concat (replicate (4 - k) ''.0''))
      \<and> length (split_on CHR ''.'' (v @ concat (replicate (4 - k) ''.0''))) = 4"
    if "length (split_on CHR ''.'' v) = k \<and> 2 \<le> k \<and> k \<le> 3
      \<and> list_all startsWithDigit (tl (split_on CHR ''.'' v))"
    using that setVersion_pads [of v k identity] by blast
  have keep: "setVersion (Some w) identity = Inr (assign_attr ''Version'' w identity)
      \<and> getVersion (assign_attr ''Version'' w identity) = Some w"
    if a: "w \<noteq> []
      \<and> (\<forall>i. Suc i < length w \<longrightarrow> w ! i = CHR ''.'' \<longrightarrow> \<not> isDigit (w ! Suc i))"
  proof -
    from a have "matchDotDigit w = 0" by (intro matchDotDigit_none) blast
    with a show ?thesis
      by (simp add: setVersion_def getVersion_def attr_assign_attr)
  qed
  from pad keep show ?thesis by blast
qed

theorem setVersion_pads_two_or_three_witness:
  "split_on CHR ''.'' ''1.2'' = [''1'', ''2'']
   \<and> list_all startsWithDigit (tl (split_on CHR ''.'' ''1.2''))
   \<and> setVersion (Some ''1.2'') (Element 0 ''Identity'' [(''Version'', ''0.0.1'')] None [])
       = Inr (Element 0 ''Identity'' [(''Version'', ''1.2.0.0'')] None [])
   \<and> split_on CHR ''.'' ''1.2.0.0'' = [''1'', ''2'', ''0'', ''0'']
   \<and> ''1.beta'' \<noteq> []
   \<and> setVersion (Some ''1.beta'') (Element 0 ''Identity'' [(''Version'', ''0.0.1'')] None [])
       = Inr (Element 0 ''Identity'' [(''Version'', ''1.beta'')] None [])"
proof -
  have nd: "\<forall>i. Suc i < length ''1.beta'' \<longrightarrow> ''1.beta'' ! i = CHR ''.''
          \<longrightarrow> \<not> isDigit (''1.beta'' ! Suc i)"
  proof (intro allI impI)
    fix i assume "Suc i < length ''1.beta''" and d: "''1.beta'' ! i = CHR ''.''"
    then have "i < 5" by simp
    then consider "i = 0" | "i = 1" | "i = 2" | "i = 3" | "i = 4" by linarith
    then show "\<not> isDigit (''1.beta'' ! Suc i)"
      using d by cases (simp_all add: isDigit_def)
  qed
  show ?thesis
    using setVersion_pads_two_or_three
          [of "''1.2''" 2 "Element 0 ''Identity'' [(''Version'', ''0.0.1'')] None []" "''1.beta''"]
      nd
    by (simp add: startsWithDigit_def isDigit_def assign_attr_def set_attrib_def
        eval_nat_numeral)
qed

text \<open>
  A single-component version has no dot followed by a digit: \<open>match\<close> returns \<open>null\<close>,
  the padding is skipped and \<open>1\<close> is stored as it is.
\<close>

theorem setVersion_single_component_counterexample:
  "length (split_on CHR ''.'' ''1'') = 1
   \<and> setVersion (Some ''1'') (Element 0 ''Identity'' [(''Version'', ''0.0.1'')] None [])
       = Inr (Element 0 ''Identity'' [(''Version'', ''1'')] None [])
   \<and> length (split_on CHR ''.'' ''1'') \<noteq> 4"
  by (simp add: setVersion_def assign_attr_def set_attrib_def)

section \<open>Properties of the manifest cache\<close>

lemma get_hit:
  "cacheLookup s p = Some v \<Longrightarrow> get fs p False s = (Inr v, s)"
  by (simp add: get_def)

lemma get_miss_cases:
  assumes "b \<or> cacheLookup s p = None" and "get fs p b s = (res, s')"
  shows "(\<exists>e. res = Inl e \<and> manifestCache s' = manifestCache s \<and> nextRef s' = nextRef s)
         \<or> (res = Inr (Instance (nextRef s)) \<and> nextRef s' = Suc (nextRef s)
             \<and> manifestCache s' = (if b then manifestCache s
                                   else (manifestCache s)(p \<mapsto> nextRef s))
             \<and> (\<exists>root. fs p = Some root
                   \<and> instances s' (nextRef s)
                       = Some \<lparr>path = p, doc = root, hasPhoneIdentity = True\<rparr>))"
  using assms
  by (auto simp: get_def AppxManifest_def Let_def split: option.splits if_splits)

lemma get_miss_parses:
  assumes "b \<or> cacheLookup s p = None" and "get fs p b s = (res, s')"
  shows "parseCalls s < parseCalls s'"
  using assms
  by (auto simp: get_def AppxManifest_def Let_def split: option.splits if_splits)

lemma get_result_cases:
  assumes "get fs p b s = (Inr v, s')"
  shows "(\<not> b \<and> cacheLookup s p = Some v \<and> s' = s)
         \<or> (v = Instance (nextRef s) \<and> nextRef s' = Suc (nextRef s)
             \<and> manifestCache s' = (if b then manifestCache s
                                   else (manifestCache s)(p \<mapsto> nextRef s)))"
proof (cases "b \<or> cacheLookup s p = None")
  case True
  from get_miss_cases [OF True assms] show ?thesis by auto
next
  case False
  then obtain c where "cacheLookup s p = Some c" and "\<not> b" by auto
  with assms show ?thesis by (simp add: get_def)
qed

lemma get_cached_after:
  assumes "get fs p False s = (Inr v, s')"
  shows "cacheLookup s' p = Some v"
  using get_result_cases [OF assms]
proof
  assume "\<not> False \<and> cacheLookup s p = Some v \<and> s' = s"
  then show ?thesis by simp
next
  assume "v = Instance (nextRef s) \<and> nextRef s' = Suc (nextRef s)
    \<and> manifestCache s' = (if False then manifestCache s
                           else (manifestCache s)(p \<mapsto> nextRef s))"
  then show ?thesis by (simp add: cacheLookup_def)
qed

lemma get_error_state:
  assumes "get fs p b s = (Inl e, s')"
  shows "manifestCache s' = manifestCache s \<and> nextRef s' = nextRef s"
proof (cases "b \<or> cacheLookup s p = None")
  case True
  from get_miss_cases [OF True assms] show ?thesis by auto
next
  case False
  then obtain c where "cacheLookup s p = Some c" and "\<not> b" by auto
  with assms show ?thesis by (simp add: get_def)
qed

lemma cacheLookup_Instance:
  "cacheLookup s p = Some (Instance r) \<Longrightarrow> r \<in> ran (manifestCache s)"
  by (auto simp: cacheLookup_def ran_def split: option.splits if_splits)

lemma ran_purgeCache: "ran (manifestCache (purgeCache ks s)) \<subseteq> ran (manifestCache s)"
proof -
  have "ran (foldl (\<lambda>m key. m(key := None)) m keys) \<subseteq> ran m"
    for m :: "string \<rightharpoonup> nat" and keys
  proof (induction keys arbitrary: m)
    case Nil
    then show ?case by simp
  next
    case (Cons k keys)
    have "ran (m(k := None)) \<subseteq> ran m" by (auto simp: ran_def)
    moreover have "ran (foldl (\<lambda>m key. m(key := None)) (m(k := None)) keys)
        \<subseteq> ran (m(k := None))" by (rule Cons)
    ultimately have "ran (foldl (\<lambda>m key. m(key := None)) (m(k := None)) keys) \<subseteq> ran m"
      by (rule subset_trans [rotated])
    then show ?case by (simp only: foldl_Cons)
  qed
  moreover have "ran (m(k := None)) \<subseteq> ran m" for m :: "string \<rightharpoonup> nat" and k
    by (auto simp: ran_def)
  ultimately show ?thesis
    by (auto simp: purgeCache_def split: cacheKeys.splits)
qed

lemma nextRef_purgeCache [simp]: "nextRef (purgeCache ks s) = nextRef s"
  by (simp add: purgeCache_def split: cacheKeys.splits)

lemma step_uncached:
  assumes "uncached r s" and "step c s = (res, s')"
  shows "uncached r s' \<and> res \<noteq> Some (Inr (Instance r))"
proof (cases c)
  case (Get fs p b)
  then obtain g where g: "get fs p b s = (g, s')" and res: "res = Some g"
    using assms(2) by (auto simp: step_def split: prod.splits)
  show ?thesis
  proof (cases g)
    case (Inl e)
    with g get_error_state [of fs p b s e s'] assms(1) res show ?thesis
      by (simp add: uncached_def)
  next
    case (Inr x)
    with g have "get fs p b s = (Inr x, s')" by simp
    from get_result_cases [OF this] show ?thesis
    proof
      assume a: "\<not> b \<and> cacheLookup s p = Some x \<and> s' = s"
      then have "x \<noteq> Instance r"
        using assms(1) cacheLookup_Instance [of s p r] by (auto simp: uncached_def)
      with a assms(1) res Inr show ?thesis by auto
    next
      assume a: "x = Instance (nextRef s) \<and> nextRef s' = Suc (nextRef s)
        \<and> manifestCache s' = (if b then manifestCache s
                               else (manifestCache s)(p \<mapsto> nextRef s))"
      then have "ran (manifestCache s') \<subseteq> insert (nextRef s) (ran (manifestCache s))"
        by (auto simp: ran_def split: if_splits)
      with a assms(1) res Inr show ?thesis by (auto simp: uncached_def)
    qed
  qed
next
  case (PurgeCache ks)
  with assms show ?thesis
    using ran_purgeCache [of ks s] by (auto simp: step_def uncached_def)
qed

lemma run_uncached:
  "uncached r s \<Longrightarrow> run cs s = (rs, s') \<Longrightarrow>
   uncached r s' \<and> Some (Inr (Instance r)) \<notin> set rs"
proof (induction cs arbitrary: s rs s')
  case Nil
  then show ?case by simp
next
  case (Cons c cs)
  obtain x s1 where st: "step c s = (x, s1)" by (cases "step c s")
  obtain xs s2 where rn: "run cs s1 = (xs, s2)" by (cases "run cs s1")
  from Cons.prems(2) st rn have eq: "rs = x # xs" "s' = s2" by auto
  from step_uncached [OF Cons.prems(1) st]
  have u: "uncached r s1" and nx: "x \<noteq> Some (Inr (Instance r))" by auto
  from Cons.IH [OF u rn] eq nx show ?case by auto
qed

lemma step_below:
  assumes "cacheBelow s" and "step c s = (res, s')"
  shows "cacheBelow s' \<and> nextRef s \<le> nextRef s'
         \<and> (\<forall>x. res = Some (Inr (Instance x)) \<longrightarrow> x < nextRef s')"
proof (cases c)
  case (Get fs p b)
  then obtain g where g: "get fs p b s = (g, s')" and res: "res = Some g"
    using assms(2) by (auto simp: step_def split: prod.splits)
  show ?thesis
  proof (cases g)
    case (Inl e)
    with g get_error_state [of fs p b s e s'] assms(1) res show ?thesis
      by (simp add: cacheBelow_def)
  next
    case (Inr x)
    with g have "get fs p b s = (Inr x, s')" by simp
    from get_result_cases [OF this] show ?thesis
    proof
      assume a: "\<not> b \<and> cacheLookup s p = Some x \<and> s' = s"
      then have "\<forall>y. x = Instance y \<longrightarrow> y < nextRef s"
        using assms(1) cacheLookup_Instance [of s p] by (auto simp: cacheBelow_def)
      with a assms(1) res Inr show ?thesis by auto
    next
      assume a: "x = Instance (nextRef s) \<and> nextRef s' = Suc (nextRef s)
        \<and> manifestCache s' = (if b then manifestCache s
                               else (manifestCache s)(p \<mapsto> nextRef s))"
      then have "ran (manifestCache s') \<subseteq> insert (nextRef s) (ran (manifestCache s))"
        by (auto simp: ran_def split: if_splits)
      with a assms(1) res Inr show ?thesis by (fastforce simp: cacheBelow_def)
    qed
  qed
next
  case (PurgeCache ks)
  with assms show ?thesis
    using ran_purgeCache [of ks s] by (auto simp: step_def cacheBelow_def)
qed

lemma run_below:
  "cacheBelow s \<Longrightarrow> run cs s = (rs, s') \<Longrightarrow>
   cacheBelow s' \<and> nextRef s \<le> nextRef s'
   \<and> (\<forall>x. Some (Inr (Instance x)) \<in> set rs \<longrightarrow> x < nextRef s')"
proof (induction cs arbitrary: s rs s')
  case Nil
  then show ?case by simp
next
  case (Cons c cs)
  obtain x s1 where st: "step c s = (x, s1)" by (cases "step c s")
  obtain xs s2 where rn: "run cs s1 = (xs, s2)" by (cases "run cs s1")
  from Cons.prems(2) st rn have eq: "rs = x # xs" "s' = s2" by auto
  from step_below [OF Cons.prems(1) st]
  have b1: "cacheBelow s1" and le1: "nextRef s \<le> nextRef s1"
    and r1: "\<forall>y. x = Some (Inr (Instance y)) \<longrightarrow> y < nextRef s1" by auto
  from Cons.IH [OF b1 rn]
  have b2: "cacheBelow s2" and le2: "nextRef s1 \<le> nextRef s2"
    and r2: "\<forall>y. Some (Inr (Instance y)) \<in> set xs \<longrightarrow> y < nextRef s2" by auto
  from r1 le2 have "\<forall>y. x = Some (Inr (Instance y)) \<longrightarrow> y < nextRef s2" by auto
  with b2 le1 le2 r2 eq show ?case by auto
qed

lemma run_append:
  "run (as @ bs) s =
     (case run as s of (rs1, s1) \<Rightarrow> (case run bs s1 of (rs2, s2) \<Rightarrow> (rs1 @ rs2, s2)))"
  by (induction as arbitrary: s) (auto split: prod.splits)

lemma length_run: "run cs s = (rs, s') \<Longrightarrow> length rs = length cs"
  by (induction cs arbitrary: s rs) (auto split: prod.splits)

lemma cacheBelow_initial: "cacheBelow initial"
  by (simp add: cacheBelow_def initial_def)

lemma bypass_fresh:
  assumes "run (pre @ Get fs p True # post) initial = (rs, sN)"
    and "rs ! length pre = Some (Inr v)"
  shows "(\<forall>j < length rs. j \<noteq> length pre \<longrightarrow> rs ! j \<noteq> Some (Inr v))
         \<and> (\<exists>r. v = Instance r \<and> r \<notin> ran (manifestCache sN))"
proof -
  obtain rs1 s1 where r1: "run pre initial = (rs1, s1)" by (cases "run pre initial")
  obtain g s2 where g: "get fs p True s1 = (g, s2)" by (cases "get fs p True s1")
  obtain rs3 s3 where r3: "run post s2 = (rs3, s3)" by (cases "run post s2")
  from assms(1) r1 g r3 have rs: "rs = rs1 @ Some g # rs3" and sN: "sN = s3"
    by (auto simp: run_append step_def)
  have len1: "length rs1 = length pre" using r1 by (rule length_run)
  with rs assms(2) have gr: "g = Inr v" by (simp add: nth_append)
  from run_below [OF cacheBelow_initial r1]
  have b1: "cacheBelow s1"
    and old: "\<forall>x. Some (Inr (Instance x)) \<in> set rs1 \<longrightarrow> x < nextRef s1" by auto
  define r where "r = nextRef s1"
  from get_miss_cases [of True s1 p fs g s2] g gr
  have fresh: "v = Instance r" and n2: "nextRef s2 = Suc r"
    and c2: "manifestCache s2 = manifestCache s1" by (auto simp: r_def)
  from b1 c2 n2 have u: "uncached r s2" by (auto simp: uncached_def cacheBelow_def r_def)
  from run_uncached [OF u r3]
  have u3: "uncached r s3" and later: "Some (Inr (Instance r)) \<notin> set rs3" by auto
  from old have earlier: "Some (Inr (Instance r)) \<notin> set rs1" by (auto simp: r_def)
  have "rs ! j \<noteq> Some (Inr v)" if "j < length rs" "j \<noteq> length pre" for j
  proof (cases "j < length pre")
    case True
    then have "rs ! j = rs1 ! j" "rs1 ! j \<in> set rs1" using rs len1 by (auto simp: nth_append)
    with earlier fresh show ?thesis by auto
  next
    case False
    with that have "length pre < j" by simp
    then obtain k where k: "j = Suc (length pre + k)" using less_iff_Suc_add by auto
    with that(1) rs len1 have "k < length rs3" by simp
    moreover from k rs len1 have "rs ! j = rs3 ! k" by (simp add: nth_append)
    ultimately have "rs ! j \<in> set rs3" by simp
    with later fresh show ?thesis by auto
  qed
  with u3 sN fresh show ?thesis by (simp add: uncached_def)
qed

text \<open>
  What holds of the cache on every path: a \<open>get\<close> without the bypass flag that returned
  something returns the same reference again, without parsing; in every history of
  calls from module load, what a \<open>get\<close> with the bypass flag returns is a new instance
  that no other call of the history returns and that is not in the cache afterwards;
  \<open>purgeCache()\<close> leaves no own property. After it, a \<open>get\<close> with the bypass flag, or
  of a name that \<open>Object.prototype\<close> does not have, parses the file again.
\<close>

lemma manifest_cache_semantics:
  "(get fs p False s = (Inr v, s1) \<longrightarrow> get fs' p False s1 = (Inr v, s1))
   \<and> (run (pre @ Get fs p True # post) initial = (rs, sN)
        \<and> rs ! length pre = Some (Inr v') \<longrightarrow>
      (\<forall>j < length rs. j \<noteq> length pre \<longrightarrow> rs ! j \<noteq> Some (Inr v'))
      \<and> (\<exists>r. v' = Instance r \<and> r \<notin> ran (manifestCache sN)))
   \<and> manifestCache (purgeCache NoKeys s) = Map.empty
   \<and> ((b \<or> p \<notin> set objectPrototype) \<and> get fs p b (purgeCache NoKeys s) = (res, s2) \<longrightarrow>
        parseCalls s < parseCalls s2
        \<and> (\<forall>x. res = Inr x \<longrightarrow>
              x = Instance (nextRef s)
              \<and> (\<exists>root. fs p = Some root
                    \<and> instances s2 (nextRef s)
                        = Some \<lparr>path = p, doc = root, hasPhoneIdentity = True\<rparr>)))"
proof -
  have 1: "get fs' p False s1 = (Inr v, s1)" if "get fs p False s = (Inr v, s1)"
    using get_cached_after [OF that] by (rule get_hit)
  have 3: "manifestCache (purgeCache NoKeys s) = Map.empty"
    by (simp add: purgeCache_def)
  have 4: "parseCalls s < parseCalls s2
        \<and> (\<forall>x. res = Inr x \<longrightarrow>
              x = Instance (nextRef s)
              \<and> (\<exists>root. fs p = Some root
                    \<and> instances s2 (nextRef s)
                        = Some \<lparr>path = p, doc = root, hasPhoneIdentity = True\<rparr>))"
    if bp: "b \<or> p \<notin> set objectPrototype" and g: "get fs p b (purgeCache NoKeys s) = (res, s2)"
  proof -
    have m: "b \<or> cacheLookup (purgeCache NoKeys s) p = None"
      using 3 bp by (auto simp: cacheLookup_def)
    have "parseCalls (purgeCache NoKeys s) = parseCalls s" by (simp add: purgeCache_def)
    with get_miss_parses [OF m g] have "parseCalls s < parseCalls s2" by simp
    with get_miss_cases [OF m g] show ?thesis by auto
  qed
  from 1 3 4 bypass_fresh [of pre fs p post rs sN v'] show ?thesis by blast
qed

text \<open>
  C4. On the names that a plain object inherits, the cache is not a cache keyed by
  path, and \<open>get\<close> does not return what its comment says (a manifest instance). The file
  named \<open>constructor\<close> holds a manifest with the \<open>xmlns:uap\<close> attribute; the cache has just been
  purged; \<open>get('constructor')\<close> parses nothing, allocates nothing and returns the member
  \<open>constructor\<close> of \<open>Object.prototype\<close>, which is no manifest instance. With the bypass flag
  the same call parses the file twice and returns a new instance.
\<close>

theorem get_inherited_name_after_purge:
  "get (\<lambda>_. Some (Element 2 ''Package'' [(''xmlns:uap'', ''http://uap'')] None []))
       ''constructor'' False (purgeCache NoKeys initial)
     = (Inr (Inherited ''constructor''), purgeCache NoKeys initial)
   \<and> parseCalls (purgeCache NoKeys initial) = 0
   \<and> manifestCache (purgeCache NoKeys initial) = Map.empty
   \<and> fst (get (\<lambda>_. Some (Element 2 ''Package'' [(''xmlns:uap'', ''http://uap'')] None []))
            ''constructor'' True (purgeCache NoKeys initial))
     = Inr (Instance 0)
   \<and> parseCalls (snd (get (\<lambda>_. Some (Element 2 ''Package'' [(''xmlns:uap'', ''http://uap'')] None []))
            ''constructor'' True (purgeCache NoKeys initial))) = 2"
  by (simp add: get_def cacheLookup_def objectPrototype_def purgeCache_def initial_def
      AppxManifest_def)



section \<open>Properties of the engine sort\<close>

lemma keyed_mono: "keyed c k S \<Longrightarrow> T \<subseteq> S \<Longrightarrow> keyed c k T"
  by (auto simp: keyed_def)

lemma keyedD: "keyed c k S \<Longrightarrow> a \<in> S \<Longrightarrow> b \<in> S \<Longrightarrow> (c a b < 0) = (k a \<le> k b)"
  by (simp add: keyed_def)

subsection \<open>Permutation\<close>

lemma mset_binaryInsertionSort:
  "mset (binaryInsertionSort c s pending) = mset s + mset pending"
proof (induction pending arbitrary: s)
  case Nil
  then show ?case by simp
next
  case (Cons p pending)
  have "mset (take n s @ p # drop n s) = mset s + {#p#}" for n
    by (metis append_take_drop_id mset.simps(2) mset_append union_mset_add_mset_right add.right_neutral)
  with Cons show ?case by (simp add: Let_def)
qed

lemma mset_arraySort: "mset (arraySort c xs) = mset xs"
proof (cases xs)
  case Nil
  then show ?thesis by (simp add: arraySort_def)
next
  case (Cons x0 ys)
  show ?thesis
  proof (cases ys)
    case Nil
    with Cons show ?thesis by (simp add: arraySort_def)
  next
    case (Cons x1 rest)
    have "mset (take n xs) + mset (drop n xs) = mset xs" for n
      by (metis append_take_drop_id mset_append)
    with Cons \<open>xs = x0 # ys\<close> show ?thesis
      by (simp add: arraySort_def Let_def mset_binaryInsertionSort del: take_Suc_Cons drop_Suc_Cons)
  qed
qed

subsection \<open>Order\<close>

lemma runLength_ascending:
  "keyed c k (insert prev (set rest)) \<Longrightarrow>
   sorted (map k (prev # take (runLength False c prev rest) rest))"
proof (induction rest arbitrary: prev)
  case Nil
  then show ?case by simp
next
  case (Cons cur rest)
  have kd: "keyed c k (insert cur (set rest))"
    using Cons.prems by (rule keyed_mono) auto
  have "(c cur prev < 0) = (k cur \<le> k prev)"
    using Cons.prems by (simp add: keyed_def)
  with Cons.IH [OF kd] show ?case by (auto simp: Let_def)
qed

lemma runLength_descending:
  "keyed c k (insert prev (set rest)) \<Longrightarrow>
   sorted (rev (map k (prev # take (runLength True c prev rest) rest)))"
proof (induction rest arbitrary: prev)
  case Nil
  then show ?case by simp
next
  case (Cons cur rest)
  have kd: "keyed c k (insert cur (set rest))"
    using Cons.prems by (rule keyed_mono) auto
  have ck: "(c cur prev < 0) = (k cur \<le> k prev)"
    using Cons.prems by (simp add: keyed_def)
  show ?case
  proof (cases "c cur prev < 0")
    case True
    from Cons.IH [OF kd]
    have "sorted (rev (map k (cur # take (runLength True c cur rest) rest)))" .
    moreover have "k cur \<le> k prev" using True ck by simp
    ultimately show ?thesis using True
      by (auto simp: Let_def sorted_append)
  next
    case False
    then show ?thesis by (simp add: Let_def)
  qed
qed

lemma binarySearch_spec:
  assumes "sorted (map k a)" and "keyed c k (insert p (set a))"
    and "left \<le> right" and "right \<le> length a"
    and "\<forall>i < left. k (a ! i) < k p"
    and "\<forall>i. right \<le> i \<and> i < length a \<longrightarrow> k p \<le> k (a ! i)"
  shows "binarySearch c p a left right \<le> length a
         \<and> (\<forall>i < binarySearch c p a left right. k (a ! i) < k p)
         \<and> (\<forall>i. binarySearch c p a left right \<le> i \<and> i < length a \<longrightarrow> k p \<le> k (a ! i))"
  using assms
proof (induction c p a left right rule: binarySearch.induct)
  case (1 c p a left right)
  show ?case
  proof (cases "left < right")
    case False
    then have "binarySearch c p a left right = left"
      by (subst binarySearch.simps) simp
    with False 1(5-) show ?thesis by auto
  next
    case True
    define mid where "mid = left + (right - left) div 2"
    have mid: "left \<le> mid" "mid < right" using True by (auto simp: mid_def)
    then have midlen: "mid < length a" using 1(6) by simp
    have ck: "(c p (a ! mid) < 0) = (k p \<le> k (a ! mid))"
      using 1(4) midlen by (simp add: keyed_def)
    have mono: "k (a ! i) \<le> k (a ! j)" if "i \<le> j" "j < length a" for i j
      using 1(3) that by (simp add: sorted_iff_nth_mono)
    show ?thesis
    proof (cases "c p (a ! mid) < 0")
      case less: True
      have up: "\<forall>i. mid \<le> i \<and> i < length a \<longrightarrow> k p \<le> k (a ! i)"
      proof (intro allI impI)
        fix i assume "mid \<le> i \<and> i < length a"
        then have "k (a ! mid) \<le> k (a ! i)" using mono by simp
        with less ck show "k p \<le> k (a ! i)" by simp
      qed
      have "binarySearch c p a left right = binarySearch c p a left mid"
        using True less by (subst binarySearch.simps) (simp add: mid_def Let_def)
      moreover have "binarySearch c p a left mid \<le> length a
         \<and> (\<forall>i < binarySearch c p a left mid. k (a ! i) < k p)
         \<and> (\<forall>i. binarySearch c p a left mid \<le> i \<and> i < length a \<longrightarrow> k p \<le> k (a ! i))"
        using 1(1) [OF True mid_def refl less 1(3) 1(4) mid(1) _ 1(7) up] midlen by simp
      ultimately show ?thesis by simp
    next
      case geq: False
      have low: "\<forall>i < mid + 1. k (a ! i) < k p"
      proof (intro allI impI)
        fix i assume "i < mid + 1"
        then have "k (a ! i) \<le> k (a ! mid)" using mono midlen by simp
        with geq ck show "k (a ! i) < k p" by simp
      qed
      have "binarySearch c p a left right = binarySearch c p a (mid + 1) right"
        using True geq by (subst binarySearch.simps) (simp add: mid_def Let_def)
      moreover have "binarySearch c p a (mid + 1) right \<le> length a
         \<and> (\<forall>i < binarySearch c p a (mid + 1) right. k (a ! i) < k p)
         \<and> (\<forall>i. binarySearch c p a (mid + 1) right \<le> i \<and> i < length a \<longrightarrow> k p \<le> k (a ! i))"
        using 1(2) [OF True mid_def refl geq 1(3) 1(4) _ 1(6) low 1(8)] mid by simp
      ultimately show ?thesis by simp
    qed
  qed
qed

lemma sorted_insert_at:
  assumes "sorted (map k a)" and "n \<le> length a"
    and "\<forall>i < n. k (a ! i) < k p"
    and "\<forall>i. n \<le> i \<and> i < length a \<longrightarrow> k p \<le> k (a ! i)"
  shows "sorted (map k (take n a @ p # drop n a))"
proof -
  have s1: "sorted (map k (take n a))" and s2: "sorted (map k (drop n a))"
    using assms(1) by (simp_all flip: take_map drop_map)
  have lo: "k x \<le> k p" if "x \<in> set (take n a)" for x
  proof -
    from that obtain i where "i < length (take n a)" "take n a ! i = x"
      by (auto simp: in_set_conv_nth)
    then have "i < n" "a ! i = x" by auto
    with assms(3) show ?thesis by auto
  qed
  have hi: "k p \<le> k y" if "y \<in> set (drop n a)" for y
  proof -
    from that obtain i where i: "i < length (drop n a)" "drop n a ! i = y"
      by (auto simp: in_set_conv_nth)
    then have "n + i < length a" "a ! (n + i) = y" using assms(2) by auto
    with assms(4) show ?thesis by (metis le_add1)
  qed
  have "k x \<le> k y" if "x \<in> set (take n a)" "y \<in> set (drop n a)" for x y
    using lo [OF that(1)] hi [OF that(2)] by simp
  with s1 s2 lo hi show ?thesis
    by (auto simp: sorted_append)
qed

lemma sorted_binaryInsertionSort:
  "sorted (map k s) \<Longrightarrow> keyed c k (set s \<union> set pending) \<Longrightarrow>
   sorted (map k (binaryInsertionSort c s pending))"
proof (induction pending arbitrary: s)
  case Nil
  then show ?case by simp
next
  case (Cons p pending)
  define n where "n = binarySearch c p s 0 (length s)"
  have kd: "keyed c k (insert p (set s))"
    using Cons.prems(2) by (rule keyed_mono) auto
  have "binarySearch c p s 0 (length s) \<le> length s
         \<and> (\<forall>i < binarySearch c p s 0 (length s). k (s ! i) < k p)
         \<and> (\<forall>i. binarySearch c p s 0 (length s) \<le> i \<and> i < length s \<longrightarrow> k p \<le> k (s ! i))"
    by (rule binarySearch_spec [OF Cons.prems(1) kd]) auto
  then have n: "n \<le> length s" "\<forall>i < n. k (s ! i) < k p"
    "\<forall>i. n \<le> i \<and> i < length s \<longrightarrow> k p \<le> k (s ! i)"
    by (auto simp: n_def)
  have srt: "sorted (map k (take n s @ p # drop n s))"
    using Cons.prems(1) n by (rule sorted_insert_at)
  have "set (take n s @ p # drop n s) = insert p (set s)"
    by (metis append_take_drop_id list.simps(15) set_append Un_insert_right)
  then have kd': "keyed c k (set (take n s @ p # drop n s) \<union> set pending)"
    using Cons.prems(2) by (auto simp: keyed_def)
  from Cons.IH [OF srt kd'] show ?case by (simp add: n_def Let_def)
qed

lemma sorted_arraySort:
  assumes "keyed c k (set xs)"
  shows "sorted (map k (arraySort c xs))"
proof (cases xs)
  case Nil
  then show ?thesis by (simp add: arraySort_def)
next
  case (Cons x0 ys)
  note xs = this
  show ?thesis
  proof (cases ys)
    case Nil
    with xs show ?thesis by (simp add: arraySort_def)
  next
    case (Cons x1 rest)
    define desc where "desc = (c x1 x0 < 0)"
    define n where "n = 2 + runLength desc c x1 rest"
    define run where "run = (if desc then rev (take n xs) else take n xs)"
    have xs': "xs = x0 # x1 # rest" using xs Cons by simp
    have eq: "arraySort c xs = binaryInsertionSort c run (drop n xs)"
      by (simp add: arraySort_def xs' desc_def n_def run_def Let_def
          del: take_Suc_Cons drop_Suc_Cons)
    have tk: "take n xs = x0 # x1 # take (runLength desc c x1 rest) rest"
      by (simp add: xs' n_def)
    have k1: "keyed c k (insert x1 (set rest))"
      using assms by (rule keyed_mono) (auto simp: xs')
    have ck: "(c x1 x0 < 0) = (k x1 \<le> k x0)"
      using assms by (simp add: keyed_def xs')
    have "sorted (map k run)"
    proof (cases desc)
      case True
      from runLength_descending [OF k1]
      have "sorted (rev (map k (x1 # take (runLength True c x1 rest) rest)))" .
      moreover have "k x1 \<le> k x0" using True ck by (simp add: desc_def)
      ultimately show ?thesis using True
        by (auto simp: run_def tk rev_map sorted_append)
    next
      case False
      from runLength_ascending [OF k1]
      have "sorted (map k (x1 # take (runLength False c x1 rest) rest))" .
      moreover have "k x0 \<le> k x1" using False ck by (simp add: desc_def)
      ultimately show ?thesis using False
        by (auto simp: run_def tk)
    qed
    moreover have "set run \<union> set (drop n xs) = set xs"
    proof -
      have "set run = set (take n xs)" by (simp add: run_def)
      then show ?thesis by (metis append_take_drop_id set_append)
    qed
    then have "keyed c k (set run \<union> set (drop n xs))" using assms by simp
    ultimately show ?thesis unfolding eq by (rule sorted_binaryInsertionSort)
  qed
qed

section \<open>Properties of the capability passes\<close>

subsection \<open>Finding and modifying\<close>

lemma find_append':
  "List.find P (xs @ ys) = (case List.find P xs of None \<Rightarrow> List.find P ys | Some x \<Rightarrow> Some x)"
  by (induction xs) auto

lemma iter_unfold: "iter e = e # concat (map iter (children e))"
  by (cases e) simp

lemma self_in_iter: "e \<in> set (iter e)"
  by (subst iter_unfold) simp

lemma children_in_descendants:
  "set (children e) \<subseteq> set (concat (map iter (children e)))"
  using self_in_iter by auto

lemma find_iter_self:
  "tag e = t \<Longrightarrow> List.find (\<lambda>c. tag c = t) (iter e @ rest) = Some e"
  by (subst iter_unfold) simp

lemma modifyFirst_find:
  assumes "\<And>e. tag (f e) = tag e"
  shows "case List.find (\<lambda>c. tag c = t) (concat (map iter es)) of
           None \<Rightarrow> modifyFirst t f es = None
         | Some c \<Rightarrow> (\<exists>es'. modifyFirst t f es = Some es'
                        \<and> List.find (\<lambda>c. tag c = t) (concat (map iter es')) = Some (f c))"
  using assms
proof (induction t f es rule: modifyFirst.induct)
  case (1 t f)
  then show ?case by simp
next
  case (2 t f i tg a l cs es)
  have ih1: "case List.find (\<lambda>c. tag c = t) (concat (map iter cs)) of
           None \<Rightarrow> modifyFirst t f cs = None
         | Some c \<Rightarrow> (\<exists>es'. modifyFirst t f cs = Some es'
                        \<and> List.find (\<lambda>c. tag c = t) (concat (map iter es')) = Some (f c))"
    if "tg \<noteq> t"
    using "2.IH"(1) [OF that "2.prems"] .
  have ih2: "case List.find (\<lambda>c. tag c = t) (concat (map iter es)) of
           None \<Rightarrow> modifyFirst t f es = None
         | Some c \<Rightarrow> (\<exists>es'. modifyFirst t f es = Some es'
                        \<and> List.find (\<lambda>c. tag c = t) (concat (map iter es')) = Some (f c))"
    if "tg \<noteq> t" "modifyFirst t f cs = None"
    using "2.IH"(2) [OF that "2.prems"] .
  show ?case
  proof (cases "tg = t")
    case True
    have "List.find (\<lambda>c. tag c = t) (iter (f (Element i tg a l cs)) @ concat (map iter es))
            = Some (f (Element i tg a l cs))"
      by (rule find_iter_self) (simp add: "2.prems" True)
    with True show ?thesis by simp
  next
    case False
    show ?thesis
    proof (cases "List.find (\<lambda>c. tag c = t) (concat (map iter cs))")
      case None
      with ih1 [OF False] have m: "modifyFirst t f cs = None" by simp
      from ih2 [OF False m] None False m show ?thesis
        by (auto simp: find_append' split: option.splits)
    next
      case (Some c)
      with ih1 [OF False] obtain cs' where
        "modifyFirst t f cs = Some cs'"
        "List.find (\<lambda>c. tag c = t) (concat (map iter cs')) = Some (f c)" by auto
      with Some False show ?thesis
        by (simp add: find_append')
    qed
  qed
qed

lemma withCapabilities_found:
  assumes "findDescendant ''Capabilities'' root = Some c" and "\<And>e. tag (pass e) = tag e"
  shows "\<exists>root'. withCapabilities pass root = Inr root'
           \<and> findDescendant ''Capabilities'' root' = Some (pass c)"
  using modifyFirst_find [of pass "''Capabilities''" "children root", OF assms(2)] assms(1)
  by (auto simp: withCapabilities_def findDescendant_def set_children_def)

lemma withCapabilities_missing:
  assumes "findDescendant ''Capabilities'' root = None" and "\<And>e. tag (pass e) = tag e"
  shows "withCapabilities pass root = Inl TypeError"
  using modifyFirst_find [of pass "''Capabilities''" "children root", OF assms(2)] assms(1)
  by (auto simp: withCapabilities_def findDescendant_def)

subsection \<open>The three passes on the element\<close>

lemma set_children_children [simp]: "set_children (children e) e = e"
  by (simp add: set_children_def)

lemma set_children_twice [simp]: "set_children cs (set_children cs' e) = set_children cs e"
  by (simp add: set_children_def)

lemma children_set_children [simp]: "children (set_children cs e) = cs"
  by (simp add: set_children_def)

lemma tag_set_children [simp]: "tag (set_children cs e) = tag e"
  by (simp add: set_children_def)

lemma attr_uapPrefixed [simp]: "attr n (uapPrefixed e) = attr n e"
  by (simp add: uapPrefixed_def attr_def set_tag_def)

lemma eid_uapPrefixed [simp]: "eid (uapPrefixed e) = eid e"
  by (simp add: uapPrefixed_def set_tag_def)

lemma attr_set_localName [simp]: "attr n (set_localName l e) = attr n e"
  by (simp add: attr_def set_localName_def)

lemma tag_set_localName [simp]: "tag (set_localName l e) = tag e"
  by (simp add: set_localName_def)

lemma localName_set_localName [simp]: "localName (set_localName l e) = l"
  by (simp add: set_localName_def)

lemma unique_fold:
  "snd (foldl (\<lambda>(uniqueCapabilities, caps) el.
                 let name = attr ''Name'' el
                 in if name \<in> set uniqueCapabilities then (uniqueCapabilities, remove el caps)
                    else (uniqueCapabilities @ [name], caps))
              (seen, c) els)
   = set_children (filter (\<lambda>e. eid e \<notin> eid ` set (dupsOf seen els)) (children c)) c"
proof (induction els arbitrary: seen c)
  case Nil
  then show ?case by simp
next
  case (Cons el els)
  show ?case
  proof (cases "attr ''Name'' el \<in> set seen")
    case True
    have "filter (\<lambda>e. eid e \<notin> eid ` set (dupsOf seen els))
            (filter (\<lambda>e. eid e \<noteq> eid el) (children c))
          = filter (\<lambda>e. eid e \<notin> eid ` set (el # dupsOf seen els)) (children c)"
      by (auto intro: filter_cong)
    with True Cons [of seen "remove el c"] show ?thesis
      by (simp add: remove_def)
  next
    case False
    with Cons [of "seen @ [attr ''Name'' el]" c] show ?thesis by simp
  qed
qed

lemma set_dupsOf: "set (dupsOf seen els) \<subseteq> set els"
  by (induction els arbitrary: seen) auto

lemma filter_dups_keepFirst:
  "distinct (map eid els) \<Longrightarrow>
   filter (\<lambda>e. eid e \<notin> eid ` set (dupsOf seen els)) els = keepFirst seen els"
proof (induction els arbitrary: seen)
  case Nil
  then show ?case by simp
next
  case (Cons el els)
  from Cons.prems have d: "distinct (map eid els)" and n: "eid el \<notin> eid ` set els" by auto
  have n': "eid e \<noteq> eid el" if "e \<in> set els" for e
    using n that by (metis imageI)
  show ?case
  proof (cases "attr ''Name'' el \<in> set seen")
    case True
    have "filter (\<lambda>e. eid e \<notin> eid ` set (el # dupsOf seen els)) els
          = filter (\<lambda>e. eid e \<notin> eid ` set (dupsOf seen els)) els"
      using n' by (intro filter_cong refl) simp
    with True Cons.IH [OF d, of seen] show ?thesis by simp
  next
    case False
    have "eid el \<notin> eid ` set (dupsOf (seen @ [attr ''Name'' el]) els)"
      using n set_dupsOf [of "seen @ [attr ''Name'' el]" els] by auto
    with False Cons.IH [OF d, of "seen @ [attr ''Name'' el]"] show ?thesis by simp
  qed
qed

lemma ensureUniqueCapabilities_eq:
  "distinct (map eid (children c)) \<Longrightarrow>
   ensureUniqueCapabilities c = set_children (keepFirst [] (children c)) c"
  by (simp add: ensureUniqueCapabilities_def unique_fold filter_dups_keepFirst)

lemma tag_ensureUniqueCapabilities: "tag (ensureUniqueCapabilities c) = tag c"
  by (simp add: ensureUniqueCapabilities_def unique_fold)

lemma tag_ensureUapPrefixedCapabilities: "tag (ensureUapPrefixedCapabilities c) = tag c"
  by (simp add: ensureUapPrefixedCapabilities_def)

lemma sort_remove_fold:
  "foldl (\<lambda>(root, arr) elem. (remove elem root, arr @ [g elem])) (r, acc) els
   = (set_children (filter (\<lambda>e. eid e \<notin> eid ` set els) (children r)) r, acc @ map g els)"
proof (induction els arbitrary: r acc)
  case Nil
  then show ?case by simp
next
  case (Cons el els)
  have "filter (\<lambda>e. eid e \<notin> eid ` set els) (filter (\<lambda>e. eid e \<noteq> eid el) (children r))
        = filter (\<lambda>e. eid e \<notin> eid ` set (el # els)) (children r)"
    by (auto intro: filter_cong)
  with Cons [of "remove el r" "acc @ [g el]"] show ?case
    by (simp add: remove_def)
qed

lemma sort_append_fold:
  "foldl (\<lambda>root elem. append_child elem root) r els = set_children (children r @ els) r"
  by (induction els arbitrary: r) (simp_all add: append_child_def)

lemma sortChildren_eq:
  "sortChildren c =
     set_children
       (arraySort compareCapabilities
          (map (\<lambda>elem. set_localName (Some (extractLocalName (tag elem))) elem) (children c))) c"
proof -
  have "filter (\<lambda>e. eid e \<notin> eid ` set (children c)) (children c) = []"
    by (simp add: filter_empty_conv)
  then show ?thesis
    by (simp add: sortChildren_def sort_remove_fold sort_append_fold)
qed

lemma tag_sortChildren: "tag (sortChildren c) = tag c"
  by (simp add: sortChildren_eq)

subsection \<open>Names kept by the duplicate elimination\<close>

lemma keepFirst_seen:
  "n \<in> set seen \<Longrightarrow> filter (\<lambda>e. attr ''Name'' e = n) (keepFirst seen els) = []"
  by (induction els arbitrary: seen) auto

lemma keepFirst_once:
  "n \<notin> set seen \<Longrightarrow> n \<in> attr ''Name'' ` set els \<Longrightarrow>
   length (filter (\<lambda>e. attr ''Name'' e = n) (keepFirst seen els)) = 1"
proof (induction els arbitrary: seen)
  case Nil
  then show ?case by simp
next
  case (Cons el els)
  show ?case
  proof (cases "attr ''Name'' el = n")
    case True
    with Cons.prems(1) keepFirst_seen [of n "seen @ [n]" els] show ?thesis by simp
  next
    case False
    with Cons.prems have "n \<in> attr ''Name'' ` set els" by auto
    with False Cons.prems(1) Cons.IH [of seen] Cons.IH [of "seen @ [attr ''Name'' el]"]
    show ?thesis by auto
  qed
qed

lemma length_filter_arraySort:
  "length (filter P (arraySort c xs)) = length (filter P xs)"
proof -
  have "mset (filter P (arraySort c xs)) = mset (filter P xs)"
    by (simp add: mset_arraySort)
  then show ?thesis by (metis size_mset)
qed

lemma keyed_compareCapabilities:
  "keyed compareCapabilities (\<lambda>e. extractLocalName (tag e))
     (set (map (\<lambda>elem. set_localName (Some (extractLocalName (tag elem))) elem) els))"
  by (auto simp: keyed_def compareCapabilities_def)

subsection \<open>The passes on the document\<close>

lemma writeToString_found:
  assumes "findDescendant ''Capabilities'' (doc m) = Some c"
  shows "\<exists>m'. writeToString m = Inr m'
           \<and> findDescendant ''Capabilities'' (doc m')
               = Some (sortChildren (ensureUniqueCapabilities (ensureUapPrefixedCapabilities c)))"
proof -
  from withCapabilities_found [OF assms, of ensureUapPrefixedCapabilities]
  obtain d1 where d1: "withCapabilities ensureUapPrefixedCapabilities (doc m) = Inr d1"
    "findDescendant ''Capabilities'' d1 = Some (ensureUapPrefixedCapabilities c)"
    by (auto simp: tag_ensureUapPrefixedCapabilities)
  from withCapabilities_found [OF d1(2), of ensureUniqueCapabilities]
  obtain d2 where d2: "withCapabilities ensureUniqueCapabilities d1 = Inr d2"
    "findDescendant ''Capabilities'' d2
       = Some (ensureUniqueCapabilities (ensureUapPrefixedCapabilities c))"
    by (auto simp: tag_ensureUniqueCapabilities)
  from withCapabilities_found [OF d2(2), of sortChildren]
  obtain d3 where d3: "withCapabilities sortChildren d2 = Inr d3"
    "findDescendant ''Capabilities'' d3
       = Some (sortChildren (ensureUniqueCapabilities (ensureUapPrefixedCapabilities c)))"
    by (auto simp: tag_sortChildren)
  from d1 d2 d3 show ?thesis
    by (simp add: writeToString_def sortCapabilities_def)
qed

lemma writeToString_missing:
  assumes "findDescendant ''Capabilities'' (doc m) = None"
  shows "writeToString m = Inl TypeError"
  using withCapabilities_missing [OF assms, of ensureUapPrefixedCapabilities]
  by (simp add: writeToString_def tag_ensureUapPrefixedCapabilities)

text \<open>
  C1 (as amended). When the document has a \<open>Capabilities\<close> element whose children are
  distinct objects, \<open>writeToString\<close> succeeds, and in the document it serializes that
  element has exactly one child with the \<open>Name\<close> of any given child it had before the
  call, however many shared that \<open>Name\<close>.
\<close>

theorem writeToString_one_capability_per_name:
  assumes "findDescendant ''Capabilities'' (doc m) = Some c"
    and "distinct (map eid (children c))"
    and "el \<in> set (children c)"
  shows "\<exists>m' c'. writeToString m = Inr m'
           \<and> findDescendant ''Capabilities'' (doc m') = Some c'
           \<and> length (filter (\<lambda>e. attr ''Name'' e = attr ''Name'' el) (children c')) = 1"
proof -
  let ?n = "attr ''Name'' el"
  let ?g = "\<lambda>elem. set_localName (Some (extractLocalName (tag elem))) elem"
  let ?c1 = "ensureUapPrefixedCapabilities c"
  have ch1: "children ?c1 = map uapPrefixed (children c)"
    by (simp add: ensureUapPrefixedCapabilities_def)
  have "map eid (map uapPrefixed (children c)) = map eid (children c)" by simp
  with assms(2) have d1: "distinct (map eid (children ?c1))" by (simp only: ch1)
  have ch2: "children (ensureUniqueCapabilities ?c1) = keepFirst [] (map uapPrefixed (children c))"
    using d1 by (simp add: ensureUniqueCapabilities_eq ch1)
  have "?n \<in> attr ''Name'' ` set (map uapPrefixed (children c))"
    using assms(3) by (force simp: image_iff)
  then have one: "length (filter (\<lambda>e. attr ''Name'' e = ?n)
                      (keepFirst [] (map uapPrefixed (children c)))) = 1"
    by (intro keepFirst_once) simp_all
  have "filter (\<lambda>e. attr ''Name'' e = ?n) (map ?g ys) = map ?g (filter (\<lambda>e. attr ''Name'' e = ?n) ys)"
    for ys by (induction ys) simp_all
  then have "length (filter (\<lambda>e. attr ''Name'' e = ?n)
               (children (sortChildren (ensureUniqueCapabilities ?c1)))) = 1"
    using one by (simp add: sortChildren_eq ch2 length_filter_arraySort)
  with writeToString_found [OF assms(1)] show ?thesis by auto
qed

theorem writeToString_one_capability_per_name_witness:
  "findDescendant ''Capabilities''
     (doc \<lparr>path = ''package.windows10.appxmanifest'',
           doc = Element 0 ''Package'' [(''xmlns:uap'', ''http://uap'')] None
                   [Element 1 ''Capabilities'' [] None
                      [Element 2 ''Capability'' [(''Name'', ''internetClient'')] None [],
                       Element 3 ''uap:Capability'' [(''Name'', ''enterpriseAuthentication'')] None [],
                       Element 4 ''uap:Capability'' [(''Name'', ''enterpriseAuthentication'')] None []]],
           hasPhoneIdentity = True\<rparr>)
     = Some (Element 1 ''Capabilities'' [] None
               [Element 2 ''Capability'' [(''Name'', ''internetClient'')] None [],
                Element 3 ''uap:Capability'' [(''Name'', ''enterpriseAuthentication'')] None [],
                Element 4 ''uap:Capability'' [(''Name'', ''enterpriseAuthentication'')] None []])
   \<and> (\<exists>m' c'. writeToString
          \<lparr>path = ''package.windows10.appxmanifest'',
           doc = Element 0 ''Package'' [(''xmlns:uap'', ''http://uap'')] None
                   [Element 1 ''Capabilities'' [] None
                      [Element 2 ''Capability'' [(''Name'', ''internetClient'')] None [],
                       Element 3 ''uap:Capability'' [(''Name'', ''enterpriseAuthentication'')] None [],
                       Element 4 ''uap:Capability'' [(''Name'', ''enterpriseAuthentication'')] None []]],
           hasPhoneIdentity = True\<rparr> = Inr m'
         \<and> findDescendant ''Capabilities'' (doc m') = Some c'
         \<and> length (filter (\<lambda>e. attr ''Name'' e = Some ''enterpriseAuthentication'') (children c')) = 1)"
  using writeToString_one_capability_per_name
    [of "\<lparr>path = ''package.windows10.appxmanifest'',
           doc = Element 0 ''Package'' [(''xmlns:uap'', ''http://uap'')] None
                   [Element 1 ''Capabilities'' [] None
                      [Element 2 ''Capability'' [(''Name'', ''internetClient'')] None [],
                       Element 3 ''uap:Capability'' [(''Name'', ''enterpriseAuthentication'')] None [],
                       Element 4 ''uap:Capability'' [(''Name'', ''enterpriseAuthentication'')] None []]],
           hasPhoneIdentity = True\<rparr>"
        "Element 1 ''Capabilities'' [] None
               [Element 2 ''Capability'' [(''Name'', ''internetClient'')] None [],
                Element 3 ''uap:Capability'' [(''Name'', ''enterpriseAuthentication'')] None [],
                Element 4 ''uap:Capability'' [(''Name'', ''enterpriseAuthentication'')] None []]"
        "Element 4 ''uap:Capability'' [(''Name'', ''enterpriseAuthentication'')] None []"]
  by (simp add: findDescendant_def attr_def)

text \<open>
  One element object appended twice is two children with one \<open>_id\<close>. The second is a
  duplicate of the first by its \<open>Name\<close>, and \<open>remove\<close> takes out every child with that
  \<open>_id\<close>: no declaration of the name is left.
\<close>

theorem writeToString_same_object_twice_counterexample:
  "writeToString
     \<lparr>path = ''package.windows10.appxmanifest'',
      doc = Element 0 ''Package'' [(''xmlns:uap'', ''http://uap'')] None
              [Element 4 ''Capabilities'' [] None
                 [Element 2 ''DeviceCapability'' [(''Name'', ''webcam'')] None [],
                  Element 3 ''Capability'' [(''Name'', ''internetClient'')] None [],
                  Element 3 ''Capability'' [(''Name'', ''internetClient'')] None []]],
      hasPhoneIdentity = True\<rparr>
   = Inr \<lparr>path = ''package.windows10.appxmanifest'',
          doc = Element 0 ''Package'' [(''xmlns:uap'', ''http://uap'')] None
                  [Element 4 ''Capabilities'' [] None
                     [Element 2 ''DeviceCapability'' [(''Name'', ''webcam'')]
                        (Some ''DeviceCapability'') []]],
          hasPhoneIdentity = True\<rparr>
   \<and> length (filter (\<lambda>e. attr ''Name'' e = Some ''internetClient'')
         [Element 2 ''DeviceCapability'' [(''Name'', ''webcam'')]
            (Some ''DeviceCapability'') []]) = 0"
  by (simp add: writeToString_def withCapabilities_def sortCapabilities_def
      ensureUapPrefixedCapabilities_def ensureUniqueCapabilities_def sortChildren_def
      uapPrefixed_def CAPS_NEEDING_UAPNS_def attr_def remove_def append_child_def
      set_children_def set_localName_def set_tag_def extractLocalName_def
      arraySort_def compareCapabilities_def Let_def)

subsection \<open>The local name\<close>

lemma split_on_no_sep: "c \<notin> set t \<Longrightarrow> split_on c t = [t]"
  by (induction t) auto

lemma split_on_sep_tl: "c \<in> set t \<Longrightarrow> tl (split_on c t) \<noteq> []"
  by (induction t) (auto split: list.splits)

lemma last_split_on:
  "last (split_on c t) = rev (takeWhile (\<lambda>x. x \<noteq> c) (rev t))"
proof (induction t)
  case Nil
  then show ?case by simp
next
  case (Cons x xs)
  show ?case
  proof (cases "x = c")
    case True
    with Cons show ?thesis by (simp add: takeWhile_append)
  next
    case False
    show ?thesis
    proof (cases "c \<in> set xs")
      case True
      then obtain s s' ss where "split_on c xs = s # s' # ss"
        using split_on_sep_tl [OF True] by (cases "split_on c xs") (auto simp: neq_Nil_conv)
      with Cons False True show ?thesis
        by (auto simp: takeWhile_append)
    next
      case no: False
      then have "takeWhile (\<lambda>x. x \<noteq> c) (rev xs) = rev xs"
        by (auto simp: takeWhile_eq_all_conv)
      with no False show ?thesis
        by (simp add: split_on_no_sep takeWhile_append)
    qed
  qed
qed

text \<open>
  What \<open>tag.split(':').pop()\<close> computes: the longest suffix of the tag that has no
  colon, that is, the tag without its prefix up to and including the last colon.
\<close>

lemma extractLocalName_suffix:
  "extractLocalName t = rev (takeWhile (\<lambda>x. x \<noteq> CHR '':'') (rev t))"
  by (simp add: extractLocalName_def last_split_on)

text \<open>
  C7. When the document has a \<open>Capabilities\<close> element, \<open>sortCapabilities\<close> succeeds and
  leaves under it the same children, each with its \<open>localName\<close> set, in ascending order of
  the local name. The local name is stated here without the code's function: it is the
  longest colon-free suffix of the tag, the tag stripped of everything up to and including
  its last colon. The order is the lexicographic order of strings by character code.
\<close>

theorem sortCapabilities_ascending:
  assumes "findDescendant ''Capabilities'' manifest = Some c"
  shows "\<exists>manifest' c'. sortCapabilities manifest = Inr manifest'
           \<and> findDescendant ''Capabilities'' manifest' = Some c'
           \<and> sorted (map (\<lambda>e. rev (takeWhile (\<lambda>x. x \<noteq> CHR '':'') (rev (tag e)))) (children c'))
           \<and> mset (children c')
               = mset (map (\<lambda>e. set_localName
                                  (Some (rev (takeWhile (\<lambda>x. x \<noteq> CHR '':'') (rev (tag e))))) e)
                           (children c))"
proof -
  from withCapabilities_found [OF assms, of sortChildren]
  obtain d where d: "sortCapabilities manifest = Inr d"
    "findDescendant ''Capabilities'' d = Some (sortChildren c)"
    by (auto simp: tag_sortChildren sortCapabilities_def)
  have "sorted (map (\<lambda>e. extractLocalName (tag e)) (children (sortChildren c)))"
    using sorted_arraySort [OF keyed_compareCapabilities, of "children c"]
    by (simp add: sortChildren_eq)
  then have "sorted (map (\<lambda>e. rev (takeWhile (\<lambda>x. x \<noteq> CHR '':'') (rev (tag e))))
                       (children (sortChildren c)))"
    by (simp only: extractLocalName_suffix)
  moreover have "mset (children (sortChildren c))
      = mset (map (\<lambda>e. set_localName (Some (extractLocalName (tag e))) e) (children c))"
    by (simp add: sortChildren_eq mset_arraySort)
  then have "mset (children (sortChildren c))
      = mset (map (\<lambda>e. set_localName
                          (Some (rev (takeWhile (\<lambda>x. x \<noteq> CHR '':'') (rev (tag e))))) e)
                  (children c))"
    by (simp only: extractLocalName_suffix)
  ultimately show ?thesis using d by blast
qed

text \<open>
  At \<open>DeviceCapability\<close> before \<open>uap:Capability\<close>: the full tags are in ascending order
  already, the local names \<open>DeviceCapability\<close> and \<open>Capability\<close> are not, and the pass puts
  \<open>uap:Capability\<close> first.
\<close>

theorem sortCapabilities_ascending_witness:
  "findDescendant ''Capabilities''
     (Element 0 ''Package'' [] None
        [Element 4 ''Capabilities'' [] None
           [Element 2 ''DeviceCapability'' [(''Name'', ''webcam'')] None [],
            Element 3 ''uap:Capability'' [(''Name'', ''musicLibrary'')] None []]])
     = Some (Element 4 ''Capabilities'' [] None
           [Element 2 ''DeviceCapability'' [(''Name'', ''webcam'')] None [],
            Element 3 ''uap:Capability'' [(''Name'', ''musicLibrary'')] None []])
   \<and> ''DeviceCapability'' < ''uap:Capability''
   \<and> sortCapabilities
          (Element 0 ''Package'' [] None
             [Element 4 ''Capabilities'' [] None
                [Element 2 ''DeviceCapability'' [(''Name'', ''webcam'')] None [],
                 Element 3 ''uap:Capability'' [(''Name'', ''musicLibrary'')] None []]])
       = Inr (Element 0 ''Package'' [] None
                [Element 4 ''Capabilities'' [] None
                   [Element 3 ''uap:Capability'' [(''Name'', ''musicLibrary'')]
                      (Some ''Capability'') [],
                    Element 2 ''DeviceCapability'' [(''Name'', ''webcam'')]
                      (Some ''DeviceCapability'') []]])
   \<and> (\<exists>manifest' c'. sortCapabilities
          (Element 0 ''Package'' [] None
             [Element 4 ''Capabilities'' [] None
                [Element 2 ''DeviceCapability'' [(''Name'', ''webcam'')] None [],
                 Element 3 ''uap:Capability'' [(''Name'', ''musicLibrary'')] None []]])
          = Inr manifest'
        \<and> findDescendant ''Capabilities'' manifest' = Some c'
        \<and> sorted (map (\<lambda>e. rev (takeWhile (\<lambda>x. x \<noteq> CHR '':'') (rev (tag e)))) (children c')))"
proof -
  have ev: "sortCapabilities
          (Element 0 ''Package'' [] None
             [Element 4 ''Capabilities'' [] None
                [Element 2 ''DeviceCapability'' [(''Name'', ''webcam'')] None [],
                 Element 3 ''uap:Capability'' [(''Name'', ''musicLibrary'')] None []]])
       = Inr (Element 0 ''Package'' [] None
                [Element 4 ''Capabilities'' [] None
                   [Element 3 ''uap:Capability'' [(''Name'', ''musicLibrary'')]
                      (Some ''Capability'') [],
                    Element 2 ''DeviceCapability'' [(''Name'', ''webcam'')]
                      (Some ''DeviceCapability'') []]])"
    by (simp add: sortCapabilities_def withCapabilities_def sortChildren_def remove_def
        append_child_def set_children_def set_localName_def extractLocalName_def
        arraySort_def compareCapabilities_def Let_def)
  show ?thesis
    using sortCapabilities_ascending
      [of "Element 0 ''Package'' [] None
        [Element 4 ''Capabilities'' [] None
           [Element 2 ''DeviceCapability'' [(''Name'', ''webcam'')] None [],
            Element 3 ''uap:Capability'' [(''Name'', ''musicLibrary'')] None []]]"
          "Element 4 ''Capabilities'' [] None
           [Element 2 ''DeviceCapability'' [(''Name'', ''webcam'')] None [],
            Element 3 ''uap:Capability'' [(''Name'', ''musicLibrary'')] None []]"]
      ev
    by (auto simp: findDescendant_def)
qed

text \<open>
  C8. On a document without any \<open>Capabilities\<close> element, \<open>writeToString\<close> throws a
  \<open>TypeError\<close>, \<open>write\<close> throws it too and writes nothing, and \<open>getCapabilities\<close> returns
  the empty list.
\<close>

theorem no_Capabilities_element:
  assumes "''Capabilities'' \<notin> tag ` set (iter (doc m))"
  shows "writeToString m = Inl TypeError
         \<and> write' destPath m disk = Inl TypeError
         \<and> getCapabilities m = []"
proof -
  have sub: "set (concat (map iter (children (doc m)))) \<subseteq> set (iter (doc m))"
    by (subst iter_unfold) auto
  have none: "\<forall>e \<in> set (concat (map iter (children (doc m)))). tag e \<noteq> ''Capabilities''"
    using assms sub by (metis imageI subsetD)
  then have "findDescendant ''Capabilities'' (doc m) = None"
    by (auto simp: findDescendant_def find_None_iff)
  then have w: "writeToString m = Inl TypeError" by (rule writeToString_missing)
  have "\<forall>e \<in> set (children (doc m)). tag e \<noteq> ''Capabilities''"
    using none children_in_descendants [of "doc m"] by blast
  then have "findChild ''Capabilities'' (doc m) = None"
    by (auto simp: findChild_def find_None_iff)
  with w show ?thesis by (simp add: getCapabilities_def write'_def)
qed

theorem no_Capabilities_element_witness:
  "''Capabilities'' \<notin> tag ` set (iter (doc
       \<lparr>path = ''/uap/prefixed'',
        doc = Element 0 ''Package'' [(''xmlns:uap'', [])] None [Element 1 ''Identity'' [] None []],
        hasPhoneIdentity = True\<rparr>))
   \<and> writeToString
       \<lparr>path = ''/uap/prefixed'',
        doc = Element 0 ''Package'' [(''xmlns:uap'', [])] None [Element 1 ''Identity'' [] None []],
        hasPhoneIdentity = True\<rparr> = Inl TypeError
   \<and> getCapabilities
       \<lparr>path = ''/uap/prefixed'',
        doc = Element 0 ''Package'' [(''xmlns:uap'', [])] None [Element 1 ''Identity'' [] None []],
        hasPhoneIdentity = True\<rparr> = []"
  using no_Capabilities_element
    [of "\<lparr>path = ''/uap/prefixed'',
        doc = Element 0 ''Package'' [(''xmlns:uap'', [])] None [Element 1 ''Identity'' [] None []],
        hasPhoneIdentity = True\<rparr>"]
  by simp

section \<open>Running the passes twice\<close>

lemma extractLocalName_Capability: "extractLocalName ''Capability'' = ''Capability''"
  by (simp add: extractLocalName_def)

lemma sorted_same_mset:
  fixes xs ys :: "'a::linorder list"
  assumes "mset xs = mset ys" and "sorted xs" and "sorted ys"
  shows "xs = ys"
  using properties_for_sort [OF assms(1,2)] sorted_sort_id [OF assms(3)] by simp

lemma uapPrefixed_idem: "uapPrefixed (uapPrefixed e) = uapPrefixed e"
  by (simp add: uapPrefixed_def set_tag_def attr_def)

lemma uapPrefixed_withLocalName:
  "uapPrefixed e = e \<Longrightarrow> uapPrefixed (set_localName l e) = set_localName l e"
  by (cases e) (auto simp: uapPrefixed_def set_tag_def attr_def set_localName_def split: if_splits)

lemma set_localName_twice [simp]: "set_localName l (set_localName l' e) = set_localName l e"
  by (simp add: set_localName_def)

lemma eid_set_localName [simp]: "eid (set_localName l e) = eid e"
  by (simp add: set_localName_def)

lemma set_keepFirst: "set (keepFirst seen els) \<subseteq> set els"
  by (induction els arbitrary: seen) auto

lemma distinct_map_keepFirst:
  "distinct (map f els) \<Longrightarrow> distinct (map f (keepFirst seen els))"
proof (induction els arbitrary: seen)
  case Nil
  then show ?case by simp
next
  case (Cons el els)
  then have "f el \<notin> f ` set (keepFirst sn els)" for sn
    using set_keepFirst [of sn els] by auto
  with Cons show ?case by auto
qed

lemma names_keepFirst:
  "distinct (map (attr ''Name'') (keepFirst seen els))
   \<and> attr ''Name'' ` set (keepFirst seen els) \<inter> set seen = {}"
proof (induction els arbitrary: seen)
  case Nil
  then show ?case by simp
next
  case (Cons el els)
  from Cons [of seen] Cons [of "seen @ [attr ''Name'' el]"] show ?case by auto
qed

lemma keepFirst_id:
  "distinct (map (attr ''Name'') els) \<Longrightarrow> attr ''Name'' ` set els \<inter> set seen = {} \<Longrightarrow>
   keepFirst seen els = els"
proof (induction els arbitrary: seen)
  case Nil
  then show ?case by simp
next
  case (Cons el els)
  from Cons.prems have "attr ''Name'' ` set els \<inter> set (seen @ [attr ''Name'' el]) = {}"
    by auto
  with Cons.IH [of "seen @ [attr ''Name'' el]"] Cons.prems show ?case by auto
qed

lemma filter_keepFirst:
  "(\<And>e. e \<in> set (dupsOf seen els) \<Longrightarrow> \<not> Q e) \<Longrightarrow>
   filter Q els = filter Q (keepFirst seen els)"
proof (induction els arbitrary: seen)
  case Nil
  then show ?case by simp
next
  case (Cons el els)
  show ?case
  proof (cases "attr ''Name'' el \<in> set seen")
    case True
    with Cons.prems have "\<not> Q el" and "\<And>e. e \<in> set (dupsOf seen els) \<Longrightarrow> \<not> Q e"
      by auto
    with True Cons.IH [of seen] show ?thesis by simp
  next
    case False
    with Cons.prems have "\<And>e. e \<in> set (dupsOf (seen @ [attr ''Name'' el]) els) \<Longrightarrow> \<not> Q e"
      by auto
    with False Cons.IH [of "seen @ [attr ''Name'' el]"] show ?thesis by simp
  qed
qed

text \<open>
  Whether or not the children are distinct objects, what the duplicate elimination
  keeps is part of the first occurrences of the names, so the names it leaves are
  pairwise distinct.
\<close>

lemma children_ensureUniqueCapabilities:
  "children (ensureUniqueCapabilities c)
     = filter (\<lambda>e. eid e \<notin> eid ` set (dupsOf [] (children c))) (keepFirst [] (children c))"
proof -
  have "filter (\<lambda>e. eid e \<notin> eid ` set (dupsOf [] (children c))) (children c)
        = filter (\<lambda>e. eid e \<notin> eid ` set (dupsOf [] (children c))) (keepFirst [] (children c))"
    by (rule filter_keepFirst) simp
  then show ?thesis by (simp add: ensureUniqueCapabilities_def unique_fold)
qed

lemma dupsOf_Nil:
  "distinct (map (attr ''Name'') els) \<Longrightarrow> attr ''Name'' ` set els \<inter> set seen = {} \<Longrightarrow>
   dupsOf seen els = []"
proof (induction els arbitrary: seen)
  case Nil
  then show ?case by simp
next
  case (Cons el els)
  from Cons.prems have "attr ''Name'' ` set els \<inter> set (seen @ [attr ''Name'' el]) = {}"
    by auto
  with Cons.IH [of "seen @ [attr ''Name'' el]"] Cons.prems show ?case by auto
qed

lemma ensureUniqueCapabilities_id:
  "distinct (map (attr ''Name'') (children c)) \<Longrightarrow> ensureUniqueCapabilities c = c"
  by (simp add: ensureUniqueCapabilities_def unique_fold dupsOf_Nil)

lemma children_normalizeCapabilities:
  "children (normalizeCapabilities c)
     = arraySort compareCapabilities
         (map withLocalName
            (children (ensureUniqueCapabilities (ensureUapPrefixedCapabilities c))))"
  by (simp add: normalizeCapabilities_def sortChildren_eq)

lemma normalizeCapabilities_eq:
  "normalizeCapabilities c = set_children (children (normalizeCapabilities c)) c"
  by (simp add: normalizeCapabilities_def sortChildren_eq ensureUniqueCapabilities_def
      unique_fold ensureUapPrefixedCapabilities_def)

lemma normalize_twice_children:
  "children (normalizeCapabilities (normalizeCapabilities c))
     = arraySort compareCapabilities (children (normalizeCapabilities c))"
proof -
  let ?kept = "children (ensureUniqueCapabilities (ensureUapPrefixedCapabilities c))"
  let ?kf = "keepFirst [] (map uapPrefixed (children c))"
  let ?ys = "children (normalizeCapabilities c)"
  have kept: "?kept = filter (\<lambda>e. eid e \<notin> eid ` set (dupsOf [] (map uapPrefixed (children c)))) ?kf"
    by (simp add: children_ensureUniqueCapabilities ensureUapPrefixedCapabilities_def)
  have ys: "?ys = arraySort compareCapabilities (map withLocalName ?kept)"
    by (rule children_normalizeCapabilities)
  then have ms: "mset ?ys = mset (map withLocalName ?kept)"
    by (simp only: mset_arraySort)
  have setys: "set ?ys = withLocalName ` set ?kept"
    using mset_eq_setD [OF ms] by simp
  have "set ?kept \<subseteq> set ?kf" by (simp add: kept)
  then have sub: "set ?kept \<subseteq> uapPrefixed ` set (children c)"
    using set_keepFirst [of "[]" "map uapPrefixed (children c)"] by auto
  have fix1: "uapPrefixed e = e" if "e \<in> set ?ys" for e
  proof -
    from that setys obtain x where x: "x \<in> set ?kept" "e = withLocalName x" by auto
    with sub obtain y where "x = uapPrefixed y" by auto
    then have "uapPrefixed x = x" by (simp add: uapPrefixed_idem)
    with x(2) show ?thesis by (simp add: uapPrefixed_withLocalName)
  qed
  have fix2: "withLocalName e = e" if "e \<in> set ?ys" for e
  proof -
    from that setys obtain x where "e = withLocalName x" by auto
    then show ?thesis by simp
  qed
  have "distinct (map (attr ''Name'') ?kf)" using names_keepFirst by blast
  then have "distinct (map (attr ''Name'') ?kept)"
    unfolding kept by (rule distinct_map_filter)
  then have "distinct (map (attr ''Name'') (map withLocalName ?kept))" by (simp add: comp_def)
  moreover have "mset (map (attr ''Name'') ?ys) = mset (map (attr ''Name'') (map withLocalName ?kept))"
    using ms by (metis mset_map)
  ultimately have dn: "distinct (map (attr ''Name'') ?ys)"
    using mset_eq_imp_distinct_iff by blast
  have "map uapPrefixed ?ys = ?ys" using fix1 by (intro map_idI)
  then have p1: "ensureUapPrefixedCapabilities (normalizeCapabilities c) = normalizeCapabilities c"
    by (simp add: ensureUapPrefixedCapabilities_def)
  have p2: "ensureUniqueCapabilities (normalizeCapabilities c) = normalizeCapabilities c"
    using dn by (rule ensureUniqueCapabilities_id)
  have "map withLocalName ?ys = ?ys" using fix2 by (intro map_idI)
  then show ?thesis
    by (simp add: normalizeCapabilities_def [of "normalizeCapabilities c"] p1 p2 sortChildren_eq)
qed

text \<open>
  C2 (as amended). Running the three passes on a \<open>Capabilities\<close> element a second time
  leaves the same children, with the same sequence of local names, and changes nothing
  else of the element; only the order among children of equal local name can change.
  When the local names of the children are pairwise distinct, the second run changes
  nothing.
\<close>

theorem normalizeCapabilities_twice:
  "mset (children (normalizeCapabilities (normalizeCapabilities c)))
     = mset (children (normalizeCapabilities c))
   \<and> map (\<lambda>e. extractLocalName (tag e)) (children (normalizeCapabilities (normalizeCapabilities c)))
     = map (\<lambda>e. extractLocalName (tag e)) (children (normalizeCapabilities c))
   \<and> normalizeCapabilities (normalizeCapabilities c)
     = set_children (children (normalizeCapabilities (normalizeCapabilities c)))
         (normalizeCapabilities c)
   \<and> (distinct (map (\<lambda>e. extractLocalName (tag e)) (children (normalizeCapabilities c)))
        \<longrightarrow> normalizeCapabilities (normalizeCapabilities c) = normalizeCapabilities c)"
proof -
  let ?k = "\<lambda>e. extractLocalName (tag e)"
  let ?kept = "children (ensureUniqueCapabilities (ensureUapPrefixedCapabilities c))"
  let ?ys = "children (normalizeCapabilities c)"
  let ?zs = "children (normalizeCapabilities (normalizeCapabilities c))"
  have zs: "?zs = arraySort compareCapabilities ?ys" by (rule normalize_twice_children)
  have ms: "mset ?zs = mset ?ys" by (simp add: zs mset_arraySort)
  have ys: "?ys = arraySort compareCapabilities (map withLocalName ?kept)"
    by (rule children_normalizeCapabilities)
  have s1: "sorted (map ?k ?ys)"
    unfolding ys by (rule sorted_arraySort [OF keyed_compareCapabilities])
  have "set ?ys = set (map withLocalName ?kept)"
    using ys mset_eq_setD [OF mset_arraySort] by metis
  then have "keyed compareCapabilities ?k (set ?ys)"
    using keyed_compareCapabilities by metis
  then have s2: "sorted (map ?k ?zs)"
    unfolding zs by (rule sorted_arraySort)
  have "mset (map ?k ?zs) = mset (map ?k ?ys)" using ms by (metis mset_map)
  then have keys: "map ?k ?zs = map ?k ?ys" using s2 s1 by (rule sorted_same_mset)
  have eq: "normalizeCapabilities (normalizeCapabilities c)
           = set_children ?zs (normalizeCapabilities c)"
    by (rule normalizeCapabilities_eq)
  have "normalizeCapabilities (normalizeCapabilities c) = normalizeCapabilities c"
    if "distinct (map ?k ?ys)"
  proof -
    from that have "inj_on ?k (set ?ys)" by (simp add: distinct_map)
    moreover have "set ?zs = set ?ys" using ms by (rule mset_eq_setD)
    ultimately have "inj_on ?k (set ?zs \<union> set ?ys)" by simp
    with keys have "?zs = ?ys" by (simp add: inj_on_map_eq_map)
    with eq show ?thesis by simp
  qed
  with ms keys eq show ?thesis by blast
qed

theorem normalizeCapabilities_twice_witness:
  "distinct (map (\<lambda>e. extractLocalName (tag e)) (children (normalizeCapabilities
       (Element 4 ''Capabilities'' [] None
          [Element 2 ''DeviceCapability'' [(''Name'', ''webcam'')] None [],
           Element 3 ''Capability'' [(''Name'', ''internetClient'')] None []]))))
   \<and> normalizeCapabilities (normalizeCapabilities
       (Element 4 ''Capabilities'' [] None
          [Element 2 ''DeviceCapability'' [(''Name'', ''webcam'')] None [],
           Element 3 ''Capability'' [(''Name'', ''internetClient'')] None []]))
     = normalizeCapabilities
       (Element 4 ''Capabilities'' [] None
          [Element 2 ''DeviceCapability'' [(''Name'', ''webcam'')] None [],
           Element 3 ''Capability'' [(''Name'', ''internetClient'')] None []])"
proof -
  have n: "normalizeCapabilities
       (Element 4 ''Capabilities'' [] None
          [Element 2 ''DeviceCapability'' [(''Name'', ''webcam'')] None [],
           Element 3 ''Capability'' [(''Name'', ''internetClient'')] None []])
     = Element 4 ''Capabilities'' [] None
          [Element 3 ''Capability'' [(''Name'', ''internetClient'')] (Some ''Capability'') [],
           Element 2 ''DeviceCapability'' [(''Name'', ''webcam'')] (Some ''DeviceCapability'') []]"
    by (simp add: normalizeCapabilities_def
      ensureUapPrefixedCapabilities_def ensureUniqueCapabilities_def sortChildren_def
      uapPrefixed_def CAPS_NEEDING_UAPNS_def attr_def remove_def append_child_def
      set_children_def set_localName_def set_tag_def extractLocalName_def
      arraySort_def compareCapabilities_def Let_def)
  have k: "extractLocalName ''Capability'' \<noteq> extractLocalName ''DeviceCapability''"
    by (simp add: extractLocalName_def)
  show ?thesis
    using normalizeCapabilities_twice
      [of "Element 4 ''Capabilities'' [] None
          [Element 2 ''DeviceCapability'' [(''Name'', ''webcam'')] None [],
           Element 3 ''Capability'' [(''Name'', ''internetClient'')] None []]"] k
    by (simp add: n)
qed

text \<open>
  Two \<open>Capability\<close> elements have the same local name. The comparator answers \<open>-1\<close> for
  them, the engine takes the pair for a descending run and reverses it: each run of the
  passes turns their order round, so the second run undoes the first.
\<close>

theorem normalizeCapabilities_twice_counterexample:
  "normalizeCapabilities
     (Element 1 ''Capabilities'' [] None
        [Element 2 ''Capability'' [(''Name'', ''internetClient'')] None [],
         Element 3 ''Capability'' [(''Name'', ''privateNetworkClientServer'')] None []])
   = Element 1 ''Capabilities'' [] None
       [Element 3 ''Capability'' [(''Name'', ''privateNetworkClientServer'')]
          (Some ''Capability'') [],
        Element 2 ''Capability'' [(''Name'', ''internetClient'')] (Some ''Capability'') []]
   \<and> normalizeCapabilities
     (Element 1 ''Capabilities'' [] None
       [Element 3 ''Capability'' [(''Name'', ''privateNetworkClientServer'')]
          (Some ''Capability'') [],
        Element 2 ''Capability'' [(''Name'', ''internetClient'')] (Some ''Capability'') []])
   = Element 1 ''Capabilities'' [] None
       [Element 2 ''Capability'' [(''Name'', ''internetClient'')] (Some ''Capability'') [],
        Element 3 ''Capability'' [(''Name'', ''privateNetworkClientServer'')]
          (Some ''Capability'') []]
   \<and> normalizeCapabilities (normalizeCapabilities
     (Element 1 ''Capabilities'' [] None
        [Element 2 ''Capability'' [(''Name'', ''internetClient'')] None [],
         Element 3 ''Capability'' [(''Name'', ''privateNetworkClientServer'')] None []]))
   \<noteq> normalizeCapabilities
     (Element 1 ''Capabilities'' [] None
        [Element 2 ''Capability'' [(''Name'', ''internetClient'')] None [],
         Element 3 ''Capability'' [(''Name'', ''privateNetworkClientServer'')] None []])"
  by (simp add: normalizeCapabilities_def
      ensureUapPrefixedCapabilities_def ensureUniqueCapabilities_def sortChildren_def
      uapPrefixed_def CAPS_NEEDING_UAPNS_def attr_def remove_def append_child_def
      set_children_def set_localName_def set_tag_def extractLocalName_Capability
      arraySort_def compareCapabilities_def Let_def)

text \<open>
  The same through \<open>writeToString\<close>: the document serialized by a second call differs
  from the one serialized by the first.
\<close>

lemma writeToString_twice_reorders:
  "writeToString
     \<lparr>path = ''package.windows10.appxmanifest'',
      doc = Element 0 ''Package'' [(''xmlns:uap'', ''http://uap'')] None
              [Element 1 ''Capabilities'' [] None
                 [Element 2 ''Capability'' [(''Name'', ''internetClient'')] None [],
                  Element 3 ''Capability'' [(''Name'', ''privateNetworkClientServer'')] None []]],
      hasPhoneIdentity = True\<rparr>
   = Inr \<lparr>path = ''package.windows10.appxmanifest'',
          doc = Element 0 ''Package'' [(''xmlns:uap'', ''http://uap'')] None
                  [Element 1 ''Capabilities'' [] None
                     [Element 3 ''Capability'' [(''Name'', ''privateNetworkClientServer'')]
                        (Some ''Capability'') [],
                      Element 2 ''Capability'' [(''Name'', ''internetClient'')]
                        (Some ''Capability'') []]],
          hasPhoneIdentity = True\<rparr>
   \<and> writeToString
     \<lparr>path = ''package.windows10.appxmanifest'',
      doc = Element 0 ''Package'' [(''xmlns:uap'', ''http://uap'')] None
              [Element 1 ''Capabilities'' [] None
                 [Element 3 ''Capability'' [(''Name'', ''privateNetworkClientServer'')]
                    (Some ''Capability'') [],
                  Element 2 ''Capability'' [(''Name'', ''internetClient'')]
                    (Some ''Capability'') []]],
      hasPhoneIdentity = True\<rparr>
   = Inr \<lparr>path = ''package.windows10.appxmanifest'',
          doc = Element 0 ''Package'' [(''xmlns:uap'', ''http://uap'')] None
                  [Element 1 ''Capabilities'' [] None
                     [Element 2 ''Capability'' [(''Name'', ''internetClient'')]
                        (Some ''Capability'') [],
                      Element 3 ''Capability'' [(''Name'', ''privateNetworkClientServer'')]
                        (Some ''Capability'') []]],
          hasPhoneIdentity = True\<rparr>"
  by (simp add: writeToString_def withCapabilities_def sortCapabilities_def
      ensureUapPrefixedCapabilities_def ensureUniqueCapabilities_def sortChildren_def
      uapPrefixed_def CAPS_NEEDING_UAPNS_def attr_def remove_def append_child_def
      set_children_def set_localName_def set_tag_def extractLocalName_Capability
      arraySort_def compareCapabilities_def Let_def)

section \<open>Properties of the dependencies setter\<close>

lemma find_modifyFirstChild:
  assumes "\<And>c. tag (f c) = tag c"
  shows "List.find (\<lambda>c. tag c = t) (modifyFirstChild t f cs)
           = map_option f (List.find (\<lambda>c. tag c = t) cs)"
  by (induction cs) (simp_all add: assms)

lemma findChild_modifyChild:
  assumes "\<And>c. tag (f c) = tag c"
  shows "findChild t (modifyChild t f e) = map_option f (findChild t e)"
  by (simp add: findChild_def modifyChild_def find_modifyFirstChild [OF assms])

lemma tag_append_child [simp]: "tag (append_child el e) = tag e"
  by (simp add: append_child_def)

lemma tag_clear [simp]: "tag (clear e) = tag e"
  by (simp add: clear_def)

lemma children_clear [simp]: "children (clear e) = []"
  by (simp add: clear_def)

lemma dependencies_fold:
  assumes "findChild ''Dependencies'' d = Some x"
  shows "\<exists>ys. findChild ''Dependencies''
             (fst (foldl (\<lambda>(d, ids) uapVersionInfo.
                            case newElement ''TargetDeviceFamily'' uapVersionInfo ids of
                              (el, ids') \<Rightarrow>
                                (modifyChild ''Dependencies'' (append_child el) d, ids'))
                         (d, ids) ds))
             = Some (set_children (children x @ ys) x)
           \<and> map tag ys = replicate (length ds) ''TargetDeviceFamily''
           \<and> map attrib ys = ds"
  using assms
proof (induction ds arbitrary: d ids x)
  case Nil
  then show ?case by simp
next
  case (Cons a ds)
  let ?el = "Element ids ''TargetDeviceFamily'' a None []"
  let ?d1 = "modifyChild ''Dependencies'' (append_child ?el) d"
  have f1: "findChild ''Dependencies'' ?d1 = Some (append_child ?el x)"
    using Cons.prems by (simp add: findChild_modifyChild)
  from Cons.IH [OF f1, of "Suc ids"] obtain ys where
    ys: "findChild ''Dependencies''
             (fst (foldl (\<lambda>(d, ids) uapVersionInfo.
                            case newElement ''TargetDeviceFamily'' uapVersionInfo ids of
                              (el, ids') \<Rightarrow>
                                (modifyChild ''Dependencies'' (append_child el) d, ids'))
                         (?d1, Suc ids) ds))
             = Some (set_children (children (append_child ?el x) @ ys) (append_child ?el x))"
      "map tag ys = replicate (length ds) ''TargetDeviceFamily''"
      "map attrib ys = ds"
    by blast
  have "set_children (children (append_child ?el x) @ ys) (append_child ?el x)
        = set_children (children x @ ?el # ys) x"
    by (simp add: append_child_def)
  with ys show ?case
    by (intro exI [of _ "?el # ys"]) (simp add: newElement_def)
qed

text \<open>
  The paths of \<open>setDependencies\<close>. With a \<open>Dependencies\<close> element present and a non-empty
  list, it returns \<open>undefined\<close> and leaves under that element one \<open>TargetDeviceFamily\<close>
  child per entry, in order, each with the attributes of its entry. On every other path
  it throws: with the element present and no list or an empty one at
  \<open>this.doc.remove\<close>, with the element absent at \<open>this.doc.append\<close>; the document is as
  it was.
\<close>

lemma setDependencies_paths:
  "(findChild ''Dependencies'' (doc m) = Some old \<and> dependencies = Some ds \<and> ds \<noteq> [] \<longrightarrow>
      (\<exists>m' ids' d. setDependencies dependencies m element_ids = (Inr Undefined, m', ids')
         \<and> findChild ''Dependencies'' (doc m') = Some d
         \<and> map tag (children d) = replicate (length ds) ''TargetDeviceFamily''
         \<and> map attrib (children d) = ds))
   \<and> (findChild ''Dependencies'' (doc m) = Some old
        \<and> (dependencies = None \<or> dependencies = Some []) \<longrightarrow>
      setDependencies dependencies m element_ids = (Inl TypeError, m, element_ids))
   \<and> (findChild ''Dependencies'' (doc m) = None \<longrightarrow>
      setDependencies dependencies m element_ids = (Inl TypeError, m, Suc element_ids))"
proof (intro conjI impI)
  assume a: "findChild ''Dependencies'' (doc m) = Some old \<and> dependencies = Some ds \<and> ds \<noteq> []"
  define doc2 where "doc2 = modifyChild ''Dependencies''
                          (\<lambda>d. if length (children d) > 0 then clear d else d) (doc m)"
  have "findChild ''Dependencies'' doc2
          = Some (if length (children old) > 0 then clear old else old)"
    unfolding doc2_def using a by (subst findChild_modifyChild) auto
  then obtain x2 where x2: "findChild ''Dependencies'' doc2 = Some x2" "children x2 = []"
    by (cases "children old") auto
  from dependencies_fold [OF x2(1), of element_ids ds] obtain ys where
    ys: "findChild ''Dependencies''
             (fst (foldl (\<lambda>(d, ids) uapVersionInfo.
                            case newElement ''TargetDeviceFamily'' uapVersionInfo ids of
                              (el, ids') \<Rightarrow>
                                (modifyChild ''Dependencies'' (append_child el) d, ids'))
                         (doc2, element_ids) ds))
             = Some (set_children (children x2 @ ys) x2)"
      "map tag ys = replicate (length ds) ''TargetDeviceFamily''"
      "map attrib ys = ds"
    by blast
  have "setDependencies dependencies m element_ids
        = (case foldl (\<lambda>(d, ids) uapVersionInfo.
                            case newElement ''TargetDeviceFamily'' uapVersionInfo ids of
                              (el, ids') \<Rightarrow>
                                (modifyChild ''Dependencies'' (append_child el) d, ids'))
                         (doc2, element_ids) ds of
             (doc3, ids3) \<Rightarrow> (Inr Undefined, m\<lparr>doc := doc3\<rparr>, ids3))"
    using a by (simp add: setDependencies_def doc2_def Let_def)
  with ys x2(2) show "\<exists>m' ids' d. setDependencies dependencies m element_ids = (Inr Undefined, m', ids')
         \<and> findChild ''Dependencies'' (doc m') = Some d
         \<and> map tag (children d) = replicate (length ds) ''TargetDeviceFamily''
         \<and> map attrib (children d) = ds"
    by (auto split: prod.splits)
next
  assume "findChild ''Dependencies'' (doc m) = Some old
        \<and> (dependencies = None \<or> dependencies = Some [])"
  then show "setDependencies dependencies m element_ids = (Inl TypeError, m, element_ids)"
    by (auto simp: setDependencies_def)
next
  assume "findChild ''Dependencies'' (doc m) = None"
  then show "setDependencies dependencies m element_ids = (Inl TypeError, m, Suc element_ids)"
    by (simp add: setDependencies_def newElement_def split: option.splits)
qed

text \<open>
  C9. What the function's own comment promises of a call with no list or an empty one
  (the \<open>Dependencies\<close> section deleted, the instance returned) is not what the code
  does. On a manifest with a \<open>Dependencies\<close> element,
  \<open>setDependencies([])\<close> and \<open>setDependencies()\<close> throw a \<open>TypeError\<close> and leave the element in
  place; on a manifest without one, a call with a non-empty list throws as well and adds
  nothing. Only a non-empty list on a manifest that has the element works: the children are replaced by one \<open>TargetDeviceFamily\<close> per entry and \<open>undefined\<close>
  is returned.
\<close>

theorem setDependencies_throws_on_document_methods:
  "setDependencies (Some [])
     \<lparr>path = ''package.windows10.appxmanifest'',
      doc = Element 0 ''Package'' [(''xmlns:uap'', ''http://uap'')] None
              [Element 2 ''Dependencies'' [] None
                 [Element 3 ''TargetDeviceFamily'' [(''Name'', ''Windows.Desktop'')] None []]],
      hasPhoneIdentity = True\<rparr> 4
   = (Inl TypeError,
      \<lparr>path = ''package.windows10.appxmanifest'',
       doc = Element 0 ''Package'' [(''xmlns:uap'', ''http://uap'')] None
               [Element 2 ''Dependencies'' [] None
                  [Element 3 ''TargetDeviceFamily'' [(''Name'', ''Windows.Desktop'')] None []]],
       hasPhoneIdentity = True\<rparr>, 4)
   \<and> setDependencies None
     \<lparr>path = ''package.windows10.appxmanifest'',
      doc = Element 0 ''Package'' [(''xmlns:uap'', ''http://uap'')] None
              [Element 2 ''Dependencies'' [] None
                 [Element 3 ''TargetDeviceFamily'' [(''Name'', ''Windows.Desktop'')] None []]],
      hasPhoneIdentity = True\<rparr> 4
   = (Inl TypeError,
      \<lparr>path = ''package.windows10.appxmanifest'',
       doc = Element 0 ''Package'' [(''xmlns:uap'', ''http://uap'')] None
               [Element 2 ''Dependencies'' [] None
                  [Element 3 ''TargetDeviceFamily'' [(''Name'', ''Windows.Desktop'')] None []]],
       hasPhoneIdentity = True\<rparr>, 4)
   \<and> setDependencies (Some [[(''Name'', ''Windows.Universal''), (''MinVersion'', ''10.0.0.0'')]])
     \<lparr>path = ''package.windows10.appxmanifest'',
      doc = Element 0 ''Package'' [(''xmlns:uap'', ''http://uap'')] None
              [Element 2 ''Identity'' [] None []],
      hasPhoneIdentity = True\<rparr> 3
   = (Inl TypeError,
      \<lparr>path = ''package.windows10.appxmanifest'',
       doc = Element 0 ''Package'' [(''xmlns:uap'', ''http://uap'')] None
               [Element 2 ''Identity'' [] None []],
       hasPhoneIdentity = True\<rparr>, 4)
   \<and> setDependencies (Some [[(''Name'', ''Windows.Universal''), (''MinVersion'', ''10.0.0.0'')]])
     \<lparr>path = ''package.windows10.appxmanifest'',
      doc = Element 0 ''Package'' [(''xmlns:uap'', ''http://uap'')] None
              [Element 2 ''Dependencies'' [] None
                 [Element 3 ''TargetDeviceFamily'' [(''Name'', ''Windows.Desktop'')] None []]],
      hasPhoneIdentity = True\<rparr> 4
   = (Inr Undefined,
      \<lparr>path = ''package.windows10.appxmanifest'',
       doc = Element 0 ''Package'' [(''xmlns:uap'', ''http://uap'')] None
               [Element 2 ''Dependencies'' [] None
                  [Element 4 ''TargetDeviceFamily''
                     [(''Name'', ''Windows.Universal''), (''MinVersion'', ''10.0.0.0'')] None []]],
       hasPhoneIdentity = True\<rparr>, 5)"
  by (simp add: setDependencies_def findChild_def newElement_def append_child_def
      modifyChild_def set_children_def clear_def)

end
